theory Spec2Isabelle
  imports Main "HOL-Library.Multiset"
begin

section \<open>Data model\<close>

text \<open>
  The exceptions the modelled Python code can raise. \<open>ValueError\<close> is what the source
  raises explicitly (an invalid size, an invalid character or value); the others are
  raised by the language itself: \<open>IndexError\<close> by a list access out of range,
  \<open>ZeroDivisionError\<close> by \<open>row // box_size\<close> when \<open>box_size\<close> is 0,
  \<open>TypeError\<close> by \<open>int(size**0.5)\<close> for a negative \<open>size\<close>, whose power is a
  complex number, and \<open>RecursionError\<close> by a call nested deeper than the interpreter
  allows. No function of the source catches an exception other than \<open>ValueError\<close>, so
  an exception ends the call and every call around it; the model returns it as \<open>Inl\<close>
  of the exception. The state an escaping exception leaves behind (the grid with the
  placements made so far) is not part of the model's result.
\<close>

datatype error = ValueError | TypeError | IndexError | ZeroDivisionError | RecursionError

text \<open>
  The three fields shared by \<open>utils.SudokuGrid\<close>, \<open>sudoku_solver_v1.SudokuGrid\<close> and
  \<open>SudokuSolver\<close>: \<open>size\<close>, \<open>box_size\<close> and \<open>grid\<close>, a list of rows. The rows are
  distinct list objects (they are built by a list comprehension or copied row by row), so
  a list of lists without sharing models them.
\<close>

record sudoku =
  size_s :: nat
  box_size :: nat
  grid :: "int list list"

text \<open>
  \<open>int(size**0.5)\<close>: the integer part of the floating-point square root. For the sizes a
  grid can be allocated for (well below \<open>2^52\<close>) it is the integer square root, computed
  here by counting up.
\<close>

primrec isqrt :: "nat \<Rightarrow> nat" where
  "isqrt 0 = 0"
| "isqrt (Suc n) = (let r = isqrt n in if (r + 1) * (r + 1) \<le> Suc n then r + 1 else r)"

text \<open>\<open>SudokuGrid.__init__\<close> (utils.py and sudoku_solver_v1.py, same text).\<close>

definition SudokuGrid_init :: "int \<Rightarrow> error + sudoku" where
  "SudokuGrid_init sz =
     (if sz < 0 then Inl TypeError
      else if int ((isqrt (nat sz))\<^sup>2) \<noteq> sz then Inl ValueError
      else Inr \<lparr>size_s = nat sz, box_size = isqrt (nat sz),
                grid = replicate (nat sz) (replicate (nat sz) 0)\<rparr>)"

text \<open>\<open>SudokuSolver.__init__\<close>: the solver shares the caller's list of rows.\<close>

definition SudokuSolver_init :: "int list list \<Rightarrow> sudoku" where
  "SudokuSolver_init g = \<lparr>size_s = length g, box_size = isqrt (length g), grid = g\<rparr>"

text \<open>\<open>grid[r][c]\<close> with non-negative indices, and the assignment \<open>grid[r][c] = v\<close>.\<close>

definition cell :: "int list list \<Rightarrow> nat \<Rightarrow> nat \<Rightarrow> error + int" where
  "cell g r c = (if r < length g \<and> c < length (g ! r) then Inr (g ! r ! c) else Inl IndexError)"

definition set_cell :: "sudoku \<Rightarrow> nat \<Rightarrow> nat \<Rightarrow> int \<Rightarrow> error + sudoku" where
  "set_cell s r c v =
     (if r < length (grid s) \<and> c < length (grid s ! r)
      then Inr (s\<lparr>grid := (grid s)[r := (grid s ! r)[c := v]]\<rparr>)
      else Inl IndexError)"

text \<open>
  The loop shape all the scans of the source share,
  \<open>for p in ps: if <read at p> == num: return ...\<close>:
  the first position whose cell equals \<open>num\<close>, \<open>None\<close> when the loop runs to its end,
  the exception when a read raises before that.
\<close>

fun first_match :: "('a \<Rightarrow> error + int) \<Rightarrow> int \<Rightarrow> 'a list \<Rightarrow> error + 'a option" where
  "first_match rd num [] = Inr None"
| "first_match rd num (p # ps) =
     (case rd p of
        Inl e \<Rightarrow> Inl e
      | Inr x \<Rightarrow> if x = num then Inr (Some p) else first_match rd num ps)"

text \<open>
  \<open>SudokuSolver.is_valid\<close> (and \<open>sudoku_solver_v1.SudokuGrid.is_valid\<close>, same text):
  three scans, over the row, the column and the box, each returning \<open>False\<close> at the first
  equal cell.
\<close>

definition SudokuSolver_is_valid :: "sudoku \<Rightarrow> nat \<Rightarrow> nat \<Rightarrow> int \<Rightarrow> error + bool" where
  "SudokuSolver_is_valid s row col num =
     (case first_match (\<lambda>c. cell (grid s) row c) num [0..<size_s s] of
        Inl e \<Rightarrow> Inl e
      | Inr (Some _) \<Rightarrow> Inr False
      | Inr None \<Rightarrow>
     (case first_match (\<lambda>r. cell (grid s) r col) num [0..<size_s s] of
        Inl e \<Rightarrow> Inl e
      | Inr (Some _) \<Rightarrow> Inr False
      | Inr None \<Rightarrow>
     (if box_size s = 0 then Inl ZeroDivisionError
      else
        let start_row = (row div box_size s) * box_size s;
            start_col = (col div box_size s) * box_size s
        in (case first_match (\<lambda>(r, c). cell (grid s) r c) num
                   (List.product [start_row..<start_row + box_size s]
                                 [start_col..<start_col + box_size s]) of
              Inl e \<Rightarrow> Inl e
            | Inr (Some _) \<Rightarrow> Inr False
            | Inr None \<Rightarrow> Inr True))))"

text \<open>
  \<open>utils.SudokuGrid.is_valid\<close>: the row test is \<open>num in self.grid[row]\<close>, over the whole
  row list; the column and box scans are as above.
\<close>

definition SudokuGrid_is_valid :: "sudoku \<Rightarrow> nat \<Rightarrow> nat \<Rightarrow> int \<Rightarrow> error + bool" where
  "SudokuGrid_is_valid s row col num =
     (if \<not> row < length (grid s) then Inl IndexError
      else if num \<in> set (grid s ! row) then Inr False
      else
     (case first_match (\<lambda>i. cell (grid s) i col) num [0..<size_s s] of
        Inl e \<Rightarrow> Inl e
      | Inr (Some _) \<Rightarrow> Inr False
      | Inr None \<Rightarrow>
     (if box_size s = 0 then Inl ZeroDivisionError
      else
        let box_row = (row div box_size s) * box_size s;
            box_col = (col div box_size s) * box_size s
        in (case first_match (\<lambda>(i, j). cell (grid s) i j) num
                   (List.product [box_row..<box_row + box_size s]
                                 [box_col..<box_col + box_size s]) of
              Inl e \<Rightarrow> Inl e
            | Inr (Some _) \<Rightarrow> Inr False
            | Inr None \<Rightarrow> Inr True))))"

text \<open>
  \<open>find_empty_cell\<close> (the three classes, same loops): the first zero cell in row-major
  order over \<open>range(size) \<times> range(size)\<close>.
\<close>

definition find_empty_cell :: "sudoku \<Rightarrow> error + (nat \<times> nat) option" where
  "find_empty_cell s =
     first_match (\<lambda>(row, col). cell (grid s) row col) 0
       (List.product [0..<size_s s] [0..<size_s s])"

section \<open>Character encoding (utils.py)\<close>

text \<open>
  A Python string of length one is a \<open>char\<close> here. \<open>str.upper\<close> maps \<open>a\<close>-\<open>z\<close> to
  \<open>A\<close>-\<open>Z\<close>; no other character has its upper case in \<open>A\<close>-\<open>Z\<close>, so leaving the others
  alone gives the same membership test. \<open>str.isdigit\<close> holds for \<open>0\<close>-\<open>9\<close>; the other
  characters it holds for make \<open>int(char)\<close> raise \<open>ValueError\<close>, the result of the last
  branch too.
\<close>

definition isdigit :: "char \<Rightarrow> bool" where
  "isdigit c = (48 \<le> (of_char c :: nat) \<and> (of_char c :: nat) \<le> 57)"

definition upper :: "char \<Rightarrow> char" where
  "upper c = (if 97 \<le> (of_char c :: nat) \<and> (of_char c :: nat) \<le> 122
              then char_of ((of_char c :: nat) - 32) else c)"

definition char_to_value :: "char \<Rightarrow> error + int" where
  "char_to_value c =
     (if c = CHR ''.'' then Inr 0
      else if isdigit c then Inr (of_char c - of_char (CHR ''0''))
      else if upper c \<in> set ''ABCDEFGHIJKLMNOPQRSTUVWXYZ''
        then Inr (of_char (upper c) - of_char (CHR ''A'') + 10)
      else Inl ValueError)"

definition value_to_char :: "int \<Rightarrow> error + char" where
  "value_to_char v =
     (if v = 0 then Inr (CHR ''.'')
      else if 1 \<le> v \<and> v \<le> 9 then Inr (char_of (of_char (CHR ''0'') + v))
      else if 10 \<le> v \<and> v \<le> 35 then Inr (char_of (of_char (CHR ''A'') + v - 10))
      else Inl ValueError)"

section \<open>Saving and loading (utils.py)\<close>

text \<open>A loop over a list that stops at the first exception.\<close>

fun map_exc :: "('a \<Rightarrow> error + 'b) \<Rightarrow> 'a list \<Rightarrow> error + 'b list" where
  "map_exc f [] = Inr []"
| "map_exc f (x # xs) =
     (case f x of
        Inl e \<Rightarrow> Inl e
      | Inr y \<Rightarrow> (case map_exc f xs of Inl e \<Rightarrow> Inl e | Inr ys \<Rightarrow> Inr (y # ys)))"

text \<open>
  \<open>save_grid_to_file\<close>: what is written to the file, one line per row, each ended by a
  newline, \<open>value_to_char\<close> of every cell. (Creating the directory, opening the file and
  the message printed are left out.)
\<close>

definition save_grid_to_file :: "sudoku \<Rightarrow> error + string list" where
  "save_grid_to_file s =
     map_exc (\<lambda>row. case map_exc value_to_char row of
                        Inl e \<Rightarrow> Inl e
                      | Inr line \<Rightarrow> Inr (line @ [CHR 0x0A]))
       (grid s)"

text \<open>
  \<open>str.isspace\<close> on the characters below 256, and \<open>str.strip()\<close>, which removes the
  white space at both ends.
\<close>

definition isspace :: "char \<Rightarrow> bool" where
  "isspace c \<longleftrightarrow> (of_char c :: nat) \<in> {9, 10, 11, 12, 13, 28, 29, 30, 31, 32, 133, 160}"

definition strip :: "string \<Rightarrow> string" where
  "strip l = rev (dropWhile isspace (rev (dropWhile isspace l)))"

text \<open>
  \<open>load_grid_from_file\<close>, from the lines \<open>file.readlines()\<close> returns (the file is taken to
  exist). The lines are stripped and the empty ones dropped; an empty file, a number of
  lines that is not a perfect square, a line whose length without spaces is not the
  size, a character \<open>char_to_value\<close> rejects and a value above the size all raise
  \<open>ValueError\<close>. \<open>load_line\<close> is the loop over the characters of one line. Every cell of
  the new grid is assigned, so the grid returned is the list of the decoded lines.
\<close>

definition load_line :: "nat \<Rightarrow> string \<Rightarrow> error + int list" where
  "load_line sz line =
     (let chars = filter (\<lambda>c. c \<noteq> CHR '' '') line
      in if length chars \<noteq> sz then Inl ValueError
         else map_exc (\<lambda>char. case char_to_value char of
                                 Inl e \<Rightarrow> Inl e
                               | Inr num \<Rightarrow> if num < 0 \<or> num > int sz then Inl ValueError
                                            else Inr num)
                chars)"

definition load_grid_from_file :: "string list \<Rightarrow> error + sudoku" where
  "load_grid_from_file raw =
     (let lines = filter (\<lambda>line. line \<noteq> []) (map strip raw)
      in if lines = [] then Inl ValueError
         else
           let sz = length lines
           in if (isqrt sz)\<^sup>2 \<noteq> sz then Inl ValueError
              else case SudokuGrid_init (int sz) of
                     Inl e \<Rightarrow> Inl e
                   | Inr g \<Rightarrow>
                      (case map_exc (load_line sz) lines of
                         Inl e \<Rightarrow> Inl e
                       | Inr rows \<Rightarrow> Inr (g\<lparr>grid := rows\<rparr>)))"

section \<open>The backtracking solver (solvers/sudoku_solver_backtracking.py)\<close>

text \<open>
  \<open>SudokuSolver.solve\<close> mutates \<open>self.grid\<close> and calls itself inside its loop over the
  candidates, so the model passes the solver state along and returns it with the
  Boolean: \<open>Inr (b, s')\<close> when the call returns \<open>b\<close> and leaves the state \<open>s'\<close>,
  \<open>Inl e\<close> when the exception \<open>e\<close> escapes.

  \<open>try_nums\<close> is the loop \<open>for num in range(1, self.size + 1)\<close> from the candidates still
  to try; \<open>rec\<close> is the recursive call \<open>self.solve()\<close>.
\<close>

fun try_nums :: "(sudoku \<Rightarrow> error + bool \<times> sudoku) \<Rightarrow> sudoku \<Rightarrow> nat \<Rightarrow> nat \<Rightarrow>
    int list \<Rightarrow> error + bool \<times> sudoku" where
  "try_nums rec s row col [] = Inr (False, s)"
| "try_nums rec s row col (num # nums) =
     (case SudokuSolver_is_valid s row col num of
        Inl e \<Rightarrow> Inl e
      | Inr False \<Rightarrow> try_nums rec s row col nums
      | Inr True \<Rightarrow>
         (case set_cell s row col num of
            Inl e \<Rightarrow> Inl e
          | Inr s1 \<Rightarrow>
             (case rec s1 of
                Inl e \<Rightarrow> Inl e
              | Inr (True, s2) \<Rightarrow> Inr (True, s2)
              | Inr (False, s2) \<Rightarrow>
                 (case set_cell s2 row col 0 of
                    Inl e \<Rightarrow> Inl e
                  | Inr s3 \<Rightarrow> try_nums rec s3 row col nums))))"

text \<open>
  Every placement is made one call deeper than the one before, and Python allows only so
  many nested calls: \<open>sys.getrecursionlimit()\<close> is 1000 and the source never changes it.
  The first argument of \<open>solve\<close> is the number of nested activations of \<open>solve\<close> the
  interpreter still allows when the call is made, each with room for the calls of
  \<open>find_empty_cell\<close> and \<open>is_valid\<close> it makes; it is below 1000 in every run of the
  source. A call with no activation left raises \<open>RecursionError\<close>.
\<close>

primrec solve :: "nat \<Rightarrow> sudoku \<Rightarrow> error + bool \<times> sudoku" where
  "solve 0 = (\<lambda>s. Inl RecursionError)"
| "solve (Suc depth) = (\<lambda>s.
     case find_empty_cell s of
       Inl e \<Rightarrow> Inl e
     | Inr None \<Rightarrow> Inr (True, s)
     | Inr (Some (row, col)) \<Rightarrow> try_nums (solve depth) s row col [1..int (size_s s)])"

text \<open>
  The number of zero cells of the grid. Every recursive call runs on a grid with one
  zero cell fewer, so \<open>RecursionError\<close> is not raised when the depth allowed is above this
  number (\<open>solve_returns\<close> below).
\<close>

definition empty_count :: "sudoku \<Rightarrow> nat" where
  "empty_count s = count_list (concat (grid s)) 0"

section \<open>The generator (sudoku_generator.py, sudoku_solver_v1.py)\<close>

text \<open>
  \<open>random.shuffle\<close> draws from the global generator of the \<open>random\<close> module. The model
  threads a generator state \<open>'r\<close> and takes the shuffle as a parameter
  \<open>shuffle :: 'r \<Rightarrow> 'a list \<Rightarrow> 'a list \<times> 'r\<close>, about which the theorems assume only
  that it returns a permutation of its argument.

  \<open>SudokuGenerator._fill_grid\<close> has the same text in both files; the two differ in the
  class of \<open>grid\<close>, hence in the \<open>is_valid\<close> that \<open>grid.is_valid\<close> calls, the parameter
  \<open>isv\<close> here. \<open>gsize\<close> is the generator's \<open>self.size\<close>. \<open>fill_loop\<close> is the loop
  \<open>for num in numbers\<close>, \<open>rec\<close> the recursive call \<open>self._fill_grid(grid)\<close>.
\<close>

fun fill_loop :: "(sudoku \<times> 'r \<Rightarrow> error + bool \<times> sudoku \<times> 'r) \<Rightarrow>
    (sudoku \<Rightarrow> nat \<Rightarrow> nat \<Rightarrow> int \<Rightarrow> error + bool) \<Rightarrow> sudoku \<Rightarrow> 'r \<Rightarrow> nat \<Rightarrow> nat \<Rightarrow>
    int list \<Rightarrow> error + bool \<times> sudoku \<times> 'r" where
  "fill_loop rec isv s rng row col [] = Inr (False, s, rng)"
| "fill_loop rec isv s rng row col (num # nums) =
     (case isv s row col num of
        Inl e \<Rightarrow> Inl e
      | Inr False \<Rightarrow> fill_loop rec isv s rng row col nums
      | Inr True \<Rightarrow>
         (case set_cell s row col num of
            Inl e \<Rightarrow> Inl e
          | Inr s1 \<Rightarrow>
             (case rec (s1, rng) of
                Inl e \<Rightarrow> Inl e
              | Inr (True, s2, rng2) \<Rightarrow> Inr (True, s2, rng2)
              | Inr (False, s2, rng2) \<Rightarrow>
                 (case set_cell s2 row col 0 of
                    Inl e \<Rightarrow> Inl e
                  | Inr s3 \<Rightarrow> fill_loop rec isv s3 rng2 row col nums))))"

text \<open>
  \<open>_fill_grid\<close>, with the number of nested activations of \<open>_fill_grid\<close> the interpreter
  still allows, as for \<open>solve\<close>: it returns \<open>True\<close> only from the innermost call, one
  level deeper than the last placement.
\<close>

primrec fill_grid :: "(sudoku \<Rightarrow> nat \<Rightarrow> nat \<Rightarrow> int \<Rightarrow> error + bool) \<Rightarrow>
    ('r \<Rightarrow> int list \<Rightarrow> int list \<times> 'r) \<Rightarrow> int \<Rightarrow> nat \<Rightarrow> sudoku \<times> 'r \<Rightarrow>
    error + bool \<times> sudoku \<times> 'r" where
  "fill_grid isv shuffle gsize 0 = (\<lambda>(s, rng). Inl RecursionError)"
| "fill_grid isv shuffle gsize (Suc depth) = (\<lambda>(s, rng).
     case find_empty_cell s of
       Inl e \<Rightarrow> Inl e
     | Inr None \<Rightarrow> Inr (True, s, rng)
     | Inr (Some (row, col)) \<Rightarrow>
         (case shuffle rng [1..gsize] of
            (numbers, rng1) \<Rightarrow>
              fill_loop (fill_grid isv shuffle gsize depth) isv s rng1 row col numbers))"

text \<open>
  \<open>SudokuGenerator.generate_complete_grid\<close>: the Boolean of \<open>_fill_grid\<close> is dropped, the
  grid object is returned as the fill left it. \<open>depth\<close> is the number of nested
  activations of \<open>_fill_grid\<close> allowed when it is called here (the frames of the
  constructor and of the other single calls are taken to fit).
\<close>

definition generate_complete_grid :: "(sudoku \<Rightarrow> nat \<Rightarrow> nat \<Rightarrow> int \<Rightarrow> error + bool) \<Rightarrow>
    ('r \<Rightarrow> int list \<Rightarrow> int list \<times> 'r) \<Rightarrow> nat \<Rightarrow> int \<Rightarrow> 'r \<Rightarrow> error + sudoku \<times> 'r" where
  "generate_complete_grid isv shuffle depth gsize rng =
     (case SudokuGrid_init gsize of
        Inl e \<Rightarrow> Inl e
      | Inr g \<Rightarrow>
         (case fill_grid isv shuffle gsize depth (g, rng) of
            Inl e \<Rightarrow> Inl e
          | Inr (b, g', rng') \<Rightarrow> Inr (g', rng')))"

text \<open>
  The removal loop of \<open>create_puzzle\<close>,
  \<open>for i in range(cells_to_remove): row, col = positions[i]; grid[row][col] = 0\<close>.
\<close>

fun remove_cells :: "(nat \<times> nat) list \<Rightarrow> nat list \<Rightarrow> sudoku \<Rightarrow> error + sudoku" where
  "remove_cells positions [] s = Inr s"
| "remove_cells positions (i # is) s =
     (if \<not> i < length positions then Inl IndexError
      else case positions ! i of
        (row, col) \<Rightarrow>
          (case set_cell s row col 0 of
             Inl e \<Rightarrow> Inl e
           | Inr s1 \<Rightarrow> remove_cells positions is s1))"

text \<open>
  The number of cells to remove: \<open>size * 7\<close>, \<open>size * 8\<close>, \<open>size * 9\<close> in
  sudoku_generator.py and \<open>size * 4\<close>, \<open>size * 5\<close>, \<open>size * 6\<close> in sudoku_solver_v1.py,
  then the minimum with \<open>size * size - size\<close>.
\<close>

definition cells_to_remove :: "int \<Rightarrow> string \<Rightarrow> int" where
  "cells_to_remove gsize difficulty =
     min (if difficulty = ''easy'' then gsize * 7
          else if difficulty = ''medium'' then gsize * 8
          else gsize * 9)
         (gsize * gsize - gsize)"

definition cells_to_remove_v1 :: "int \<Rightarrow> string \<Rightarrow> int" where
  "cells_to_remove_v1 gsize difficulty =
     min (if difficulty = ''easy'' then gsize * 4
          else if difficulty = ''medium'' then gsize * 5
          else gsize * 6)
         (gsize * gsize - gsize)"

text \<open>
  The rest of \<open>create_puzzle\<close>, the same in both files once \<open>cells_to_remove\<close> is known:
  generate, list the positions, shuffle them, blank the first ones.
\<close>

definition puzzle_from :: "(sudoku \<Rightarrow> nat \<Rightarrow> nat \<Rightarrow> int \<Rightarrow> error + bool) \<Rightarrow>
    ('r \<Rightarrow> int list \<Rightarrow> int list \<times> 'r) \<Rightarrow> ('r \<Rightarrow> (nat \<times> nat) list \<Rightarrow> (nat \<times> nat) list \<times> 'r) \<Rightarrow>
    nat \<Rightarrow> int \<Rightarrow> int \<Rightarrow> 'r \<Rightarrow> error + sudoku \<times> 'r" where
  "puzzle_from isv shuffle shuffle_pos depth gsize to_remove rng =
     (case generate_complete_grid isv shuffle depth gsize rng of
        Inl e \<Rightarrow> Inl e
      | Inr (complete_grid, rng1) \<Rightarrow>
         (case shuffle_pos rng1 (List.product [0..<nat gsize] [0..<nat gsize]) of
            (positions, rng2) \<Rightarrow>
              (case remove_cells positions [0..<nat to_remove] complete_grid of
                 Inl e \<Rightarrow> Inl e
               | Inr puzzle \<Rightarrow> Inr (puzzle, rng2))))"

definition create_puzzle :: "('r \<Rightarrow> int list \<Rightarrow> int list \<times> 'r) \<Rightarrow>
    ('r \<Rightarrow> (nat \<times> nat) list \<Rightarrow> (nat \<times> nat) list \<times> 'r) \<Rightarrow> nat \<Rightarrow> int \<Rightarrow> string \<Rightarrow> 'r \<Rightarrow>
    error + sudoku \<times> 'r" where
  "create_puzzle shuffle shuffle_pos depth gsize difficulty rng =
     puzzle_from SudokuGrid_is_valid shuffle shuffle_pos depth gsize
       (cells_to_remove gsize difficulty) rng"


section \<open>Specification predicates\<close>

text \<open>
  The grids of the data model: \<open>size\<close> rows of \<open>size\<close> cells, \<open>size = box_size\<^sup>2\<close>,
  every cell in \<open>[0, size]\<close>.
\<close>

definition well_formed :: "sudoku \<Rightarrow> bool" where
  "well_formed s \<longleftrightarrow>
     length (grid s) = size_s s \<and> list_all (\<lambda>row. length row = size_s s) (grid s)
     \<and> box_size s * box_size s = size_s s"

definition cells_in_range :: "sudoku \<Rightarrow> bool" where
  "cells_in_range s \<longleftrightarrow> list_all (list_all (\<lambda>v. 0 \<le> v \<and> v \<le> int (size_s s))) (grid s)"

text \<open>The values of a row, of a column, and of the box that contains a cell.\<close>

definition row_values :: "sudoku \<Rightarrow> nat \<Rightarrow> int list" where
  "row_values s r = grid s ! r"

definition col_values :: "sudoku \<Rightarrow> nat \<Rightarrow> int list" where
  "col_values s c = map (\<lambda>r. grid s ! r ! c) [0..<size_s s]"

definition box_positions :: "nat \<Rightarrow> nat \<Rightarrow> nat \<Rightarrow> (nat \<times> nat) list" where
  "box_positions b r c =
     List.product [(r div b) * b..<(r div b) * b + b] [(c div b) * b..<(c div b) * b + b]"

definition box_values :: "sudoku \<Rightarrow> nat \<Rightarrow> nat \<Rightarrow> int list" where
  "box_values s r c = map (\<lambda>(i, j). grid s ! i ! j) (box_positions (box_size s) r c)"

definition positions :: "sudoku \<Rightarrow> (nat \<times> nat) list" where
  "positions s = List.product [0..<size_s s] [0..<size_s s]"

text \<open>
  Two cells share a unit when they are in the same row, the same column or the same box.
  Two distinct cells that share a unit are in conflict when they hold the same non-zero
  value; the invariant of a partially filled grid is that no two cells are.
\<close>

definition same_unit :: "nat \<Rightarrow> nat \<times> nat \<Rightarrow> nat \<times> nat \<Rightarrow> bool" where
  "same_unit b p q \<longleftrightarrow>
     fst p = fst q \<or> snd p = snd q
     \<or> (fst p div b = fst q div b \<and> snd p div b = snd q div b)"

definition conflict :: "sudoku \<Rightarrow> nat \<times> nat \<Rightarrow> nat \<times> nat \<Rightarrow> bool" where
  "conflict s p q \<longleftrightarrow>
     p \<noteq> q \<and> same_unit (box_size s) p q
     \<and> grid s ! fst p ! snd p \<noteq> 0 \<and> grid s ! fst p ! snd p = grid s ! fst q ! snd q"

definition partial_invariant :: "sudoku \<Rightarrow> bool" where
  "partial_invariant s \<longleftrightarrow>
     (\<forall>p\<in>set (positions s). \<forall>q\<in>set (positions s). \<not> conflict s p q)"

text \<open>
  The invariant of a solved grid: no zero cell, and each value of \<open>[1, size]\<close> exactly
  once in every row, every column and every box.
\<close>

definition solved :: "sudoku \<Rightarrow> bool" where
  "solved s \<longleftrightarrow>
     empty_count s = 0
     \<and> (\<forall>r\<in>{0..<size_s s}. \<forall>v\<in>{1..int (size_s s)}. count_list (row_values s r) v = 1)
     \<and> (\<forall>c\<in>{0..<size_s s}. \<forall>v\<in>{1..int (size_s s)}. count_list (col_values s c) v = 1)
     \<and> (\<forall>r\<in>{0..<size_s s}. \<forall>c\<in>{0..<size_s s}. \<forall>v\<in>{1..int (size_s s)}.
           count_list (box_values s r c) v = 1)"

text \<open>A shuffle returns a permutation of its argument.\<close>

definition permutes_input :: "('r \<Rightarrow> 'a list \<Rightarrow> 'a list \<times> 'r) \<Rightarrow> bool" where
  "permutes_input shuffle \<longleftrightarrow> (\<forall>rng xs. mset (fst (shuffle rng xs)) = mset xs)"

text \<open>
  The shuffle that leaves the list as it is: with it the search of \<open>_fill_grid\<close> tries the
  candidates in ascending order, as \<open>solve\<close> does.
\<close>

definition keep_order :: "'r \<Rightarrow> 'a list \<Rightarrow> 'a list \<times> 'r" where
  "keep_order rng xs = (xs, rng)"

text \<open>All the conflicts of the grid lie within row \<open>r\<close>.\<close>

definition conflicts_only_in_row :: "sudoku \<Rightarrow> nat \<Rightarrow> bool" where
  "conflicts_only_in_row s r \<longleftrightarrow>
     (\<forall>p\<in>set (positions s). \<forall>q\<in>set (positions s). conflict s p q \<longrightarrow> fst p = r \<and> fst q = r)"

text \<open>
  A completion of a grid: a grid of the same shape, full, in range and without conflict,
  that holds the same value wherever the first grid is not zero. The search succeeds on
  every grid that has one (\<open>fill_grid_complete\<close> below), stack permitting.
\<close>

definition completion_of :: "sudoku \<Rightarrow> sudoku \<Rightarrow> bool" where
  "completion_of s sol \<longleftrightarrow>
     well_formed sol \<and> size_s sol = size_s s \<and> box_size sol = box_size s
     \<and> cells_in_range sol \<and> find_empty_cell sol = Inr None \<and> partial_invariant sol
     \<and> (\<forall>i<size_s s. \<forall>j<size_s s. grid s ! i ! j \<noteq> 0 \<longrightarrow> grid sol ! i ! j = grid s ! i ! j)"

text \<open>
  A solved grid for every box size \<open>b\<close>: row \<open>r\<close> is the first row shifted by
  \<open>b * (r mod b) + r div b\<close>. It is a completion of the empty grid of size \<open>b * b\<close>.
\<close>

definition pattern_grid :: "nat \<Rightarrow> sudoku" where
  "pattern_grid b =
     \<lparr>size_s = b * b, box_size = b,
      grid = map (\<lambda>r. map (\<lambda>c. int ((b * (r mod b) + r div b + c) mod (b * b)) + 1) [0..<b * b])
               [0..<b * b]\<rparr>"

text \<open>
  The number of cells that are not zero, and the relation between a puzzle and the
  complete grid it was made from: every cell is blank or as in the complete grid.
\<close>

definition filled_count :: "sudoku \<Rightarrow> nat" where
  "filled_count s = length (filter (\<lambda>v. v \<noteq> 0) (concat (grid s)))"

definition blanked_from :: "sudoku \<Rightarrow> sudoku \<Rightarrow> bool" where
  "blanked_from p g \<longleftrightarrow>
     size_s p = size_s g \<and> box_size p = box_size g
     \<and> (\<forall>i<size_s g. \<forall>j<size_s g. grid p ! i ! j = 0 \<or> grid p ! i ! j = grid g ! i ! j)"

section \<open>Grid construction\<close>

lemma isqrt_bounds: "isqrt n * isqrt n \<le> n \<and> n < (isqrt n + 1) * (isqrt n + 1)"
  by (induction n) (auto simp: Let_def)

lemma isqrt_square: "isqrt (b * b) = b"
proof -
  let ?r = "isqrt (b * b)"
  have 1: "?r * ?r \<le> b * b" and 2: "b * b < (?r + 1) * (?r + 1)"
    using isqrt_bounds[of "b * b"] by auto
  have "\<not> b < ?r"
  proof
    assume "b < ?r"
    then have "b * b < ?r * ?r" by (simp add: mult_strict_mono')
    with 1 show False by simp
  qed
  moreover have "\<not> ?r + 1 \<le> b"
  proof
    assume "?r + 1 \<le> b"
    then have "(?r + 1) * (?r + 1) \<le> b * b" using mult_le_mono by blast
    with 2 show False by simp
  qed
  ultimately show ?thesis by simp
qed

lemma perfect_square_iff: "(\<exists>b::int. b * b = int n) \<longleftrightarrow> (isqrt n)\<^sup>2 = n"
proof
  assume "\<exists>b::int. b * b = int n"
  then obtain b :: int where b: "b * b = int n" by blast
  have "nat \<bar>b\<bar> * nat \<bar>b\<bar> = n"
  proof -
    have "int (nat \<bar>b\<bar> * nat \<bar>b\<bar>) = \<bar>b\<bar> * \<bar>b\<bar>" by simp
    also have "\<dots> = int n" using b by (simp add: abs_mult_self_eq)
    finally show ?thesis by (simp only: of_nat_eq_iff)
  qed
  then have "isqrt n = nat \<bar>b\<bar>" using isqrt_square[of "nat \<bar>b\<bar>"] by simp
  with \<open>nat \<bar>b\<bar> * nat \<bar>b\<bar> = n\<close> show "(isqrt n)\<^sup>2 = n" by (simp add: power2_eq_square)
next
  assume "(isqrt n)\<^sup>2 = n"
  then have "int (isqrt n) * int (isqrt n) = int n"
    by (metis of_nat_mult power2_eq_square)
  then show "\<exists>b::int. b * b = int n" by blast
qed

text \<open>
  Claim C5. For a size that is a perfect square, \<open>SudokuGrid(size)\<close> succeeds and gives a
  \<open>size \<times> size\<close> grid of zeros whose \<open>box_size\<close> squared is \<open>size\<close>; for a size
  that is not a perfect square it raises \<open>ValueError\<close>, the invalid-size error, and no
  grid is produced. Sizes are the non-negative integers of the data model.
\<close>

theorem grid_construction:
  assumes "0 \<le> sz"
  shows "(if \<exists>b::int. b * b = sz
          then \<exists>s. SudokuGrid_init sz = Inr s \<and> int (size_s s) = sz
                 \<and> grid s = replicate (nat sz) (replicate (nat sz) 0)
                 \<and> int (box_size s) * int (box_size s) = sz
          else SudokuGrid_init sz = Inl ValueError)"
proof -
  obtain n where n: "sz = int n" using assms by (metis nat_0_le)
  show ?thesis
  proof (cases "\<exists>b::int. b * b = sz")
    case True
    then have sq: "(isqrt n)\<^sup>2 = n" using perfect_square_iff n by simp
    then have "int (isqrt n) * int (isqrt n) = int n"
      by (metis of_nat_mult power2_eq_square)
    with True sq n show ?thesis by (simp add: SudokuGrid_init_def)
  next
    case False
    then have "(isqrt n)\<^sup>2 \<noteq> n" using perfect_square_iff n by simp
    with False n show ?thesis by (simp add: SudokuGrid_init_def)
  qed
qed

theorem grid_construction_witness:
  "(0::int) \<le> 9 \<and> (\<exists>b::int. b * b = 9)
   \<and> (\<exists>s. SudokuGrid_init 9 = Inr s \<and> int (size_s s) = 9
         \<and> grid s = replicate 9 (replicate 9 0) \<and> int (box_size s) * int (box_size s) = 9)
   \<and> (0::int) \<le> 10 \<and> \<not> (\<exists>b::int. b * b = 10) \<and> SudokuGrid_init 10 = Inl ValueError"
proof -
  have a: "\<exists>b::int. b * b = 9" by (rule exI[of _ 3]) simp
  have b: "\<not> (\<exists>b::int. b * b = 10)"
  proof -
    have "(isqrt 10)\<^sup>2 \<noteq> 10" by code_simp
    then show ?thesis using perfect_square_iff[of 10] by simp
  qed
  show ?thesis using a b grid_construction[of 9] grid_construction[of 10] by simp
qed

section \<open>Reading and writing cells\<close>

lemma first_match_Some:
  "first_match rd num ps = Inr (Some p) \<Longrightarrow> p \<in> set ps \<and> rd p = Inr num"
  by (induction ps) (auto split: sum.splits if_splits)

lemma first_match_pure:
  "\<forall>p\<in>set ps. rd p = Inr (f p) \<Longrightarrow>
   first_match rd num ps = Inr (List.find (\<lambda>p. f p = num) ps)"
  by (induction ps) auto

lemma find_empty_cell_Some:
  assumes "find_empty_cell s = Inr (Some (row, col))"
  shows "cell (grid s) row col = Inr 0" and "row < size_s s" and "col < size_s s"
  using first_match_Some[OF assms[unfolded find_empty_cell_def]] by auto

lemma cell_Inr: "cell g r c = Inr x \<longleftrightarrow> r < length g \<and> c < length (g ! r) \<and> g ! r ! c = x"
  by (auto simp: cell_def)

lemma set_cell_Inr:
  "set_cell s r c v = Inr s1 \<longleftrightarrow>
   r < length (grid s) \<and> c < length (grid s ! r)
   \<and> s1 = s\<lparr>grid := (grid s)[r := (grid s ! r)[c := v]]\<rparr>"
  by (auto simp: set_cell_def)

lemma set_cell_fields:
  "set_cell s r c v = Inr s1 \<Longrightarrow> size_s s1 = size_s s \<and> box_size s1 = box_size s
     \<and> length (grid s1) = length (grid s)"
  by (auto simp: set_cell_Inr)

lemma set_cell_cell:
  "set_cell s r c v = Inr s1 \<Longrightarrow>
   cell (grid s1) r' c' = (if r' = r \<and> c' = c then Inr v else cell (grid s) r' c')"
  by (auto simp: set_cell_Inr cell_def nth_list_update)

lemma set_cell_defined: "cell (grid s) r c = Inr x \<Longrightarrow> \<exists>s1. set_cell s r c v = Inr s1"
  by (auto simp: set_cell_Inr cell_Inr)

lemma set_cell_undo:
  assumes "cell (grid s) r c = Inr 0" and "set_cell s r c v = Inr s1"
  shows "set_cell s1 r c 0 = Inr s"
proof -
  from assms(1) have r: "r < length (grid s)" and c: "c < length (grid s ! r)"
    and z: "grid s ! r ! c = 0" by (auto simp: cell_Inr)
  have "(grid s ! r)[c := 0] = grid s ! r" using z by (metis list_update_id)
  then have "(grid s)[r := (grid s ! r)[c := 0]] = grid s" by simp
  with r c assms(2) show ?thesis by (simp add: set_cell_Inr)
qed

lemma count_list_update:
  "i < length xs \<Longrightarrow> xs ! i = a \<Longrightarrow> v \<noteq> a \<Longrightarrow> Suc (count_list (xs[i := v]) a) = count_list xs a"
proof (induction xs arbitrary: i)
  case Nil
  then show ?case by simp
next
  case (Cons x xs)
  then show ?case by (cases i) auto
qed

lemma count_concat_update:
  "r < length g \<Longrightarrow>
   count_list (concat (g[r := row'])) a + count_list (g ! r) a
   = count_list (concat g) a + count_list row' a"
proof (induction g arbitrary: r)
  case Nil
  then show ?case by simp
next
  case (Cons x g)
  then show ?case by (cases r) (auto simp: )
qed

lemma empty_count_set_cell:
  assumes "cell (grid s) r c = Inr 0" and "set_cell s r c v = Inr s1" and "v \<noteq> 0"
  shows "Suc (empty_count s1) = empty_count s"
proof -
  from assms(1) have r: "r < length (grid s)" and c: "c < length (grid s ! r)"
    and z: "grid s ! r ! c = 0" by (auto simp: cell_Inr)
  have 1: "Suc (count_list ((grid s ! r)[c := v]) 0) = count_list (grid s ! r) 0"
    using c z assms(3) by (rule count_list_update)
  have 2: "count_list (concat ((grid s)[r := (grid s ! r)[c := v]])) 0 + count_list (grid s ! r) 0
       = count_list (concat (grid s)) 0 + count_list ((grid s ! r)[c := v]) 0"
    using r by (rule count_concat_update)
  from assms(2) have "grid s1 = (grid s)[r := (grid s ! r)[c := v]]"
    by (simp add: set_cell_Inr)
  with 1 2 show ?thesis by (simp add: empty_count_def)
qed

section \<open>The backtracking search: runs and their shape\<close>

text \<open>
  The loop of \<open>_fill_grid\<close>, entered on a zero cell and with a recursive call that leaves
  the grid as it was whenever it returns \<open>False\<close>: either the loop returns \<open>False\<close> with
  the grid as it was, or it returns \<open>True\<close> after a valid placement of one of the
  candidates and a successful recursive call.
\<close>

lemma fill_loop_cases:
  assumes "fill_loop rec isv s rng row col nums = Inr (b, s', rng')"
    and "cell (grid s) row col = Inr 0"
    and "\<And>s1 r1 s2 r2. rec (s1, r1) = Inr (False, s2, r2) \<Longrightarrow> s2 = s1"
  shows "(\<not> b \<and> s' = s)
     \<or> (b \<and> (\<exists>num\<in>set nums. \<exists>s1 r1. isv s row col num = Inr True
              \<and> set_cell s row col num = Inr s1 \<and> rec (s1, r1) = Inr (True, s', rng')))"
  using assms(1)
proof (induction nums arbitrary: rng)
  case Nil
  then show ?case by simp
next
  case (Cons num nums)
  show ?case
  proof (cases "isv s row col num")
    case (Inl e)
    with Cons.prems show ?thesis by simp
  next
    case (Inr ok)
    show ?thesis
    proof (cases ok)
      case False
      with Inr Cons.prems have "fill_loop rec isv s rng row col nums = Inr (b, s', rng')"
        by simp
      from Cons.IH[OF this] show ?thesis by auto
    next
      case True
      obtain s1 where s1: "set_cell s row col num = Inr s1"
        using set_cell_defined[OF assms(2)] by blast
      show ?thesis
      proof (cases "rec (s1, rng)")
        case (Inl e)
        with Inr True s1 Cons.prems show ?thesis by simp
      next
        case res: (Inr t)
        obtain b2 s2 rng2 where t: "t = (b2, s2, rng2)" by (cases t) auto
        show ?thesis
        proof (cases b2)
          case b2: True
          with res t Inr True s1 Cons.prems
          have "b" "s' = s2" "rng' = rng2" by auto
          with res t b2 Inr True s1 show ?thesis by auto
        next
          case b2: False
          with res t have "rec (s1, rng) = Inr (False, s2, rng2)" by simp
          then have "s2 = s1" by (rule assms(3))
          then have "set_cell s2 row col 0 = Inr s"
            using set_cell_undo[OF assms(2) s1] by simp
          with res t b2 Inr True s1 Cons.prems
          have "fill_loop rec isv s rng2 row col nums = Inr (b, s', rng')"
            by simp
          from Cons.IH[OF this] show ?thesis by auto
        qed
      qed
    qed
  qed
qed

text \<open>A call that returns \<open>False\<close> leaves the grid as it was.\<close>

lemma fill_grid_False:
  "fill_grid isv shuffle gsize depth (s, rng) = Inr (False, s', rng') \<Longrightarrow> s' = s"
proof (induction depth arbitrary: s rng s' rng')
  case 0
  then show ?case by simp
next
  case (Suc depth)
  show ?case
  proof (cases "find_empty_cell s")
    case (Inl e)
    with Suc.prems show ?thesis by simp
  next
    case (Inr found)
    show ?thesis
    proof (cases found)
      case None
      with Inr Suc.prems show ?thesis by simp
    next
      case (Some p)
      obtain row col where p: "p = (row, col)" by (cases p) auto
      obtain numbers rng1 where sh: "shuffle rng [1..gsize] = (numbers, rng1)"
        by (cases "shuffle rng [1..gsize]") auto
      have zero: "cell (grid s) row col = Inr 0"
        using find_empty_cell_Some(1) Inr Some p by simp
      have run: "fill_loop (fill_grid isv shuffle gsize depth) isv s rng1 row col numbers
                 = Inr (False, s', rng')"
        using Suc.prems Inr Some p sh by simp
      have "\<And>s1 r1 s2 r2. fill_grid isv shuffle gsize depth (s1, r1) = Inr (False, s2, r2)
          \<Longrightarrow> s2 = s1" by (rule Suc.IH)
      from fill_loop_cases[OF run zero this] show ?thesis by simp
    qed
  qed
qed

text \<open>
  Hence a call that returns \<open>True\<close> is a chain of valid placements, each on the first
  zero cell and each one call deeper, ending in a grid without zero cell: the induction
  rule for successful runs.
\<close>

lemma fill_grid_True_induct [consumes 1, case_names full place]:
  assumes run: "fill_grid isv shuffle gsize depth (s, rng) = Inr (True, s', rng')"
    and full: "find_empty_cell s' = Inr None \<Longrightarrow> P s'"
    and place: "\<And>s row col num r s1.
        \<lbrakk>find_empty_cell s = Inr (Some (row, col)); num \<in> set (fst (shuffle r [1..gsize]));
         isv s row col num = Inr True; set_cell s row col num = Inr s1; P s1\<rbrakk> \<Longrightarrow> P s"
  shows "P s"
  using run
proof (induction depth arbitrary: s rng)
  case 0
  then show ?case by simp
next
  case (Suc depth)
  show ?case
  proof (cases "find_empty_cell s")
    case (Inl e)
    with Suc.prems show ?thesis by simp
  next
    case (Inr found)
    show ?thesis
    proof (cases found)
      case None
      with Inr Suc.prems have "s' = s" by simp
      with Inr None full show ?thesis by simp
    next
      case (Some p)
      obtain row col where p: "p = (row, col)" by (cases p) auto
      obtain numbers rng1 where sh: "shuffle rng [1..gsize] = (numbers, rng1)"
        by (cases "shuffle rng [1..gsize]") auto
      have zero: "cell (grid s) row col = Inr 0"
        using find_empty_cell_Some(1) Inr Some p by simp
      have run: "fill_loop (fill_grid isv shuffle gsize depth) isv s rng1 row col numbers
                 = Inr (True, s', rng')"
        using Suc.prems Inr Some p sh by simp
      have "\<exists>num\<in>set numbers. \<exists>s1 r1. isv s row col num = Inr True
              \<and> set_cell s row col num = Inr s1
              \<and> fill_grid isv shuffle gsize depth (s1, r1) = Inr (True, s', rng')"
        using fill_loop_cases[OF run zero fill_grid_False] by simp
      then obtain num s1 r1 where num: "num \<in> set numbers" "isv s row col num = Inr True"
          "set_cell s row col num = Inr s1"
          "fill_grid isv shuffle gsize depth (s1, r1) = Inr (True, s', rng')"
        by blast
      have "P s1" using Suc.IH[OF num(4)] .
      moreover have "num \<in> set (fst (shuffle rng [1..gsize]))" using num(1) sh by simp
      ultimately show ?thesis using place[of s row col num rng s1] Inr Some p num by simp
    qed
  qed
qed

text \<open>No call changes the size or the box size of the grid.\<close>

lemma fill_grid_fields:
  assumes "fill_grid isv shuffle gsize depth (s, rng) = Inr (b, s', rng')"
  shows "size_s s' = size_s s \<and> box_size s' = box_size s"
proof (cases b)
  case False
  with assms have "s' = s" using fill_grid_False by metis
  then show ?thesis by simp
next
  case True
  with assms have "fill_grid isv shuffle gsize depth (s, rng) = Inr (True, s', rng')"
    by simp
  then show ?thesis
    by (induction rule: fill_grid_True_induct) (auto dest: set_cell_fields)
qed

section \<open>The validity check on well-formed grids\<close>

lemma scan_result:
  "\<forall>p\<in>set ps. rd p = Inr (f p) \<Longrightarrow>
   (case first_match rd v ps of Inl e \<Rightarrow> Inl e | Inr (Some _) \<Rightarrow> Inr False | Inr None \<Rightarrow> K)
   = (if v \<in> f ` set ps then Inr False else K)"
  by (induction ps) auto

lemma well_formed_row: "well_formed s \<Longrightarrow> r < size_s s \<Longrightarrow> length (grid s ! r) = size_s s"
  by (auto simp: well_formed_def list_all_length)

lemma well_formed_cell:
  "well_formed s \<Longrightarrow> r < size_s s \<Longrightarrow> c < size_s s \<Longrightarrow>
   cell (grid s) r c = Inr (grid s ! r ! c)"
  by (simp add: cell_def well_formed_row) (simp add: well_formed_def)

lemma well_formed_box_pos: "well_formed s \<Longrightarrow> r < size_s s \<Longrightarrow> 0 < box_size s"
  by (cases "box_size s") (auto simp: well_formed_def)

lemma box_start_le:
  assumes "r < b * b"
  shows "(r div b) * b + b \<le> b * (b::nat)"
proof -
  have "0 < b" using assms by (cases b) auto
  then have "r div b < b" using assms by (simp add: less_mult_imp_div_less)
  then have "Suc (r div b) \<le> b" by simp
  then have "Suc (r div b) * b \<le> b * b" by (rule mult_le_mono1)
  then show ?thesis by (simp add: add.commute)
qed

lemma box_positions_in_range:
  assumes "well_formed s" "r < size_s s" "c < size_s s" "(i, j) \<in> set (box_positions (box_size s) r c)"
  shows "i < size_s s \<and> j < size_s s"
proof -
  let ?b = "box_size s"
  have n: "size_s s = ?b * ?b" using assms(1) by (simp add: well_formed_def)
  have "i < (r div ?b) * ?b + ?b" "j < (c div ?b) * ?b + ?b"
    using assms(4) by (auto simp: box_positions_def)
  moreover have "(r div ?b) * ?b + ?b \<le> ?b * ?b" "(c div ?b) * ?b + ?b \<le> ?b * ?b"
    using assms(2,3) n by (simp_all add: box_start_le)
  ultimately show ?thesis using n by simp
qed

lemma SudokuSolver_is_valid_well_formed:
  assumes "well_formed s" "row < size_s s" "col < size_s s"
  shows "SudokuSolver_is_valid s row col v
     = Inr (v \<notin> set (row_values s row) \<and> v \<notin> set (col_values s col)
            \<and> v \<notin> set (box_values s row col))"
proof -
  let ?g = "grid s" and ?n = "size_s s" and ?b = "box_size s"
  have b: "?b \<noteq> 0" using well_formed_box_pos[OF assms(1,2)] by simp
  have rowscan: "\<forall>c\<in>set [0..<?n]. cell ?g row c = Inr (?g ! row ! c)"
    using assms by (simp add: well_formed_cell)
  have colscan: "\<forall>r\<in>set [0..<?n]. cell ?g r col = Inr (?g ! r ! col)"
    using assms by (simp add: well_formed_cell)
  have boxscan: "\<forall>p\<in>set (box_positions ?b row col).
      (case p of (r, c) \<Rightarrow> cell ?g r c) = Inr (case p of (i, j) \<Rightarrow> ?g ! i ! j)"
    using box_positions_in_range[OF assms] assms(1) by (auto simp: well_formed_cell)
  have rowset: "(\<lambda>c. ?g ! row ! c) ` set [0..<?n] = set (row_values s row)"
    using well_formed_row[OF assms(1,2)] nth_image[of ?n "?g ! row"]
    by (simp add: row_values_def)
  have colset: "(\<lambda>r. ?g ! r ! col) ` set [0..<?n] = set (col_values s col)"
    by (simp add: col_values_def)
  have boxset: "(\<lambda>p. case p of (i, j) \<Rightarrow> ?g ! i ! j) ` set (box_positions ?b row col)
      = set (box_values s row col)"
    by (simp add: box_values_def)
  show ?thesis
    unfolding SudokuSolver_is_valid_def Let_def
      box_positions_def[symmetric]
      scan_result[OF rowscan] scan_result[OF colscan] scan_result[OF boxscan]
      rowset colset boxset
    using b by simp
qed

lemma SudokuGrid_is_valid_well_formed:
  assumes "well_formed s" "row < size_s s" "col < size_s s"
  shows "SudokuGrid_is_valid s row col v
     = Inr (v \<notin> set (row_values s row) \<and> v \<notin> set (col_values s col)
            \<and> v \<notin> set (box_values s row col))"
proof -
  let ?g = "grid s" and ?n = "size_s s" and ?b = "box_size s"
  have b: "?b \<noteq> 0" using well_formed_box_pos[OF assms(1,2)] by simp
  have r: "row < length ?g" using assms(1,2) by (simp add: well_formed_def)
  have colscan: "\<forall>r\<in>set [0..<?n]. cell ?g r col = Inr (?g ! r ! col)"
    using assms by (simp add: well_formed_cell)
  have boxscan: "\<forall>p\<in>set (box_positions ?b row col).
      (case p of (r, c) \<Rightarrow> cell ?g r c) = Inr (case p of (i, j) \<Rightarrow> ?g ! i ! j)"
    using box_positions_in_range[OF assms] assms(1) by (auto simp: well_formed_cell)
  have colset: "(\<lambda>r. ?g ! r ! col) ` set [0..<?n] = set (col_values s col)"
    by (simp add: col_values_def)
  have boxset: "(\<lambda>p. case p of (i, j) \<Rightarrow> ?g ! i ! j) ` set (box_positions ?b row col)
      = set (box_values s row col)"
    by (simp add: box_values_def)
  show ?thesis
    unfolding SudokuGrid_is_valid_def Let_def
      box_positions_def[symmetric]
      scan_result[OF colscan] scan_result[OF boxscan]
      colset boxset
    using b r by (simp add: row_values_def)
qed

section \<open>Placements on well-formed grids\<close>

lemma same_box_iff:
  assumes "0 < (b::nat)"
  shows "((r div b) * b \<le> i \<and> i < (r div b) * b + b) \<longleftrightarrow> i div b = r div b"
proof
  assume "(r div b) * b \<le> i \<and> i < (r div b) * b + b"
  then have "b * (r div b) \<le> i" "i < b * Suc (r div b)" by (simp_all add: mult.commute)
  then show "i div b = r div b" by (rule div_nat_eqI)
next
  assume eq: "i div b = r div b"
  have "(i div b) * b \<le> i" by simp
  moreover have "i < (i div b) * b + b"
    using assms by (metis add.commute dividend_less_div_times mult.commute)
  ultimately show "(r div b) * b \<le> i \<and> i < (r div b) * b + b" using eq by simp
qed

lemma box_positions_iff:
  "0 < b \<Longrightarrow> (i, j) \<in> set (box_positions b r c) \<longleftrightarrow> i div b = r div b \<and> j div b = c div b"
  by (simp add: box_positions_def same_box_iff)

lemma positions_iff: "(i, j) \<in> set (positions s) \<longleftrightarrow> i < size_s s \<and> j < size_s s"
  by (simp add: positions_def)

lemma absent_iff:
  assumes "well_formed s" "row < size_s s" "col < size_s s"
  shows "(v \<notin> set (row_values s row) \<and> v \<notin> set (col_values s col)
          \<and> v \<notin> set (box_values s row col))
     \<longleftrightarrow> (\<forall>i j. i < size_s s \<and> j < size_s s \<and> same_unit (box_size s) (row, col) (i, j)
            \<longrightarrow> grid s ! i ! j \<noteq> v)"
proof -
  let ?n = "size_s s" and ?b = "box_size s" and ?g = "grid s"
  have b: "0 < ?b" using well_formed_box_pos[OF assms(1,2)] .
  have row: "v \<in> set (row_values s row) \<longleftrightarrow> (\<exists>j<?n. ?g ! row ! j = v)"
    using well_formed_row[OF assms(1,2)] by (auto simp: row_values_def in_set_conv_nth)
  have col: "v \<in> set (col_values s col) \<longleftrightarrow> (\<exists>i<?n. ?g ! i ! col = v)"
    by (auto simp: col_values_def)
  have box: "v \<in> set (box_values s row col)
      \<longleftrightarrow> (\<exists>i j. i < ?n \<and> j < ?n \<and> row div ?b = i div ?b \<and> col div ?b = j div ?b
                 \<and> ?g ! i ! j = v)"
  proof
    assume "v \<in> set (box_values s row col)"
    then obtain i j where ij: "(i, j) \<in> set (box_positions ?b row col)" "?g ! i ! j = v"
      by (auto simp: box_values_def)
    with box_positions_in_range[OF assms ij(1)] b show "\<exists>i j. i < ?n \<and> j < ?n
        \<and> row div ?b = i div ?b \<and> col div ?b = j div ?b \<and> ?g ! i ! j = v"
      by (intro exI[of _ i] exI[of _ j]) (simp add: box_positions_iff)
  next
    assume "\<exists>i j. i < ?n \<and> j < ?n \<and> row div ?b = i div ?b \<and> col div ?b = j div ?b
        \<and> ?g ! i ! j = v"
    then obtain i j where "(i, j) \<in> set (box_positions ?b row col)" "?g ! i ! j = v"
      using b by (auto simp: box_positions_iff)
    then show "v \<in> set (box_values s row col)"
      unfolding box_values_def by force
  qed
  show ?thesis
    unfolding row col box same_unit_def using assms(2,3) by auto
qed

lemma set_cell_nth:
  "set_cell s r c v = Inr s1 \<Longrightarrow> i < length (grid s) \<Longrightarrow> j < length (grid s ! i) \<Longrightarrow>
   grid s1 ! i ! j = (if i = r \<and> j = c then v else grid s ! i ! j)"
  by (auto simp: set_cell_Inr nth_list_update)

lemma set_cell_well_formed:
  assumes "set_cell s r c v = Inr s1" "well_formed s"
  shows "well_formed s1"
proof -
  from assms(1) have g: "grid s1 = (grid s)[r := (grid s ! r)[c := v]]"
    and f: "size_s s1 = size_s s" "box_size s1 = box_size s" and r: "r < length (grid s)"
    by (auto simp: set_cell_Inr)
  have "length row = size_s s" if "row \<in> set (grid s1)" for row
  proof -
    from that g have "row = (grid s ! r)[c := v] \<or> row \<in> set (grid s)"
      using set_update_subset_insert by fastforce
    then show ?thesis using assms(2) r by (auto simp: well_formed_def list_all_iff)
  qed
  then show ?thesis using assms(2) g f by (simp add: well_formed_def list_all_iff)
qed

lemma set_cell_cells_in_range:
  assumes "set_cell s r c v = Inr s1" "cells_in_range s" "0 \<le> v" "v \<le> int (size_s s)"
  shows "cells_in_range s1"
proof -
  from assms(1) have g: "grid s1 = (grid s)[r := (grid s ! r)[c := v]]"
    and f: "size_s s1 = size_s s" and r: "r < length (grid s)"
    by (auto simp: set_cell_Inr)
  have "0 \<le> x \<and> x \<le> int (size_s s)" if "row \<in> set (grid s1)" "x \<in> set row" for row x
  proof -
    from that(1) g have "row = (grid s ! r)[c := v] \<or> row \<in> set (grid s)"
      using set_update_subset_insert by fastforce
    then show ?thesis
    proof
      assume "row = (grid s ! r)[c := v]"
      with that(2) have "x = v \<or> x \<in> set (grid s ! r)"
        using set_update_subset_insert by fastforce
      then show ?thesis using assms(2,3,4) r by (auto simp: cells_in_range_def list_all_iff)
    next
      assume "row \<in> set (grid s)"
      then show ?thesis using assms(2) that(2) by (auto simp: cells_in_range_def list_all_iff)
    qed
  qed
  then show ?thesis using f by (auto simp: cells_in_range_def list_all_iff)
qed

lemma same_unit_sym: "same_unit b p q \<Longrightarrow> same_unit b q p"
  by (auto simp: same_unit_def)

text \<open>A placement that \<open>is_valid\<close> accepts creates no conflict.\<close>

lemma placement_no_new_conflict:
  assumes wf: "well_formed s" and rc: "row < size_s s" "col < size_s s"
    and absent: "v \<notin> set (row_values s row) \<and> v \<notin> set (col_values s col)
          \<and> v \<notin> set (box_values s row col)"
    and s1: "set_cell s row col v = Inr s1"
    and p: "p \<in> set (positions s)" and q: "q \<in> set (positions s)"
    and c: "conflict s1 p q"
  shows "conflict s p q"
proof -
  let ?n = "size_s s" and ?b = "box_size s"
  obtain i j where pij: "p = (i, j)" by (cases p) auto
  obtain k l where qkl: "q = (k, l)" by (cases q) auto
  from p q pij qkl have rng: "i < ?n" "j < ?n" "k < ?n" "l < ?n" by (simp_all add: positions_iff)
  have len: "length (grid s) = ?n" using wf by (simp add: well_formed_def)
  have at: "grid s1 ! a ! d = (if a = row \<and> d = col then v else grid s ! a ! d)"
    if "a < ?n" "d < ?n" for a d
    using set_cell_nth[OF s1, of a d] that len well_formed_row[OF wf that(1)] by simp
  have free: "grid s ! a ! d \<noteq> v"
    if "a < ?n" "d < ?n" "same_unit ?b (row, col) (a, d)" for a d
    using absent that unfolding absent_iff[OF wf rc] by blast
  have b1: "box_size s1 = ?b" using s1 by (simp add: set_cell_fields)
  from c pij qkl b1 have ne: "(i, j) \<noteq> (k, l)" and su: "same_unit ?b (i, j) (k, l)"
    and nz: "grid s1 ! i ! j \<noteq> 0" and eq: "grid s1 ! i ! j = grid s1 ! k ! l"
    by (simp_all add: conflict_def)
  show ?thesis
  proof (cases "(i, j) = (row, col)")
    case True
    with ne have "\<not> (k = row \<and> l = col)" by auto
    with eq True at[OF rng(1,2)] at[OF rng(3,4)] have "grid s ! k ! l = v" by simp
    moreover have "same_unit ?b (row, col) (k, l)" using su True by simp
    ultimately show ?thesis using free[OF rng(3,4)] by simp
  next
    case False
    show ?thesis
    proof (cases "(k, l) = (row, col)")
      case True
      with eq False at[OF rng(1,2)] at[OF rng(3,4)] have "grid s ! i ! j = v" by auto
      moreover have "same_unit ?b (row, col) (i, j)" using su True same_unit_sym by simp
      ultimately show ?thesis using free[OF rng(1,2)] by simp
    next
      case kl: False
      with False eq nz at[OF rng(1,2)] at[OF rng(3,4)]
      have "grid s ! i ! j \<noteq> 0" "grid s ! i ! j = grid s ! k ! l" by auto
      with ne su pij qkl show ?thesis by (simp add: conflict_def)
    qed
  qed
qed

section \<open>A full grid without conflict is solved\<close>

lemma distinct_count_list_1: "distinct xs \<Longrightarrow> x \<in> set xs \<Longrightarrow> count_list xs x = 1"
  by (induction xs) auto

lemma each_value_once:
  assumes "distinct xs" "length xs = n" "set xs \<subseteq> {1..int n}" "v \<in> {1..int n}"
  shows "count_list xs v = 1"
proof -
  have "card (set xs) = n" using assms(1,2) by (simp add: distinct_card)
  moreover have "card {1..int n} = n" by simp
  ultimately have "set xs = {1..int n}" using assms(3) by (simp add: card_subset_eq)
  with assms(4) have "v \<in> set xs" by simp
  with assms(1) show ?thesis by (rule distinct_count_list_1)
qed

lemma find_empty_cell_None:
  assumes "well_formed s" "find_empty_cell s = Inr None" "i < size_s s" "j < size_s s"
  shows "grid s ! i ! j \<noteq> 0"
proof -
  have "\<forall>p\<in>set (positions s). (case p of (row, col) \<Rightarrow> cell (grid s) row col)
        = Inr (case p of (i, j) \<Rightarrow> grid s ! i ! j)"
    using assms(1) by (auto simp: positions_iff well_formed_cell)
  from first_match_pure[OF this, of 0] assms(2)
  have "List.find (\<lambda>p. (case p of (i, j) \<Rightarrow> grid s ! i ! j) = 0) (positions s) = None"
    by (simp add: find_empty_cell_def positions_def)
  then have "\<not> (\<exists>p. p \<in> set (positions s) \<and> (case p of (i, j) \<Rightarrow> grid s ! i ! j) = 0)"
    by (simp add: find_None_iff)
  with assms(3,4) show ?thesis by (auto simp: positions_iff)
qed

lemma full_empty_count:
  assumes wf: "well_formed s" and full: "find_empty_cell s = Inr None"
  shows "empty_count s = 0"
proof -
  let ?n = "size_s s" and ?g = "grid s"
  have len: "length ?g = ?n" using wf by (simp add: well_formed_def)
  have "0 \<notin> set (concat ?g)"
  proof
    assume "0 \<in> set (concat ?g)"
    then obtain row where row: "row \<in> set ?g" "0 \<in> set row" by auto
    then obtain i where i: "i < ?n" "row = ?g ! i" using len by (metis in_set_conv_nth)
    with row(2) obtain j where "j < ?n" "?g ! i ! j = 0"
      using well_formed_row[OF wf i(1)] by (metis in_set_conv_nth)
    with find_empty_cell_None[OF wf full i(1)] show False by simp
  qed
  then show ?thesis by (simp add: empty_count_def)
qed

lemma cells_in_range_nth:
  "well_formed s \<Longrightarrow> cells_in_range s \<Longrightarrow> i < size_s s \<Longrightarrow> j < size_s s \<Longrightarrow>
   0 \<le> grid s ! i ! j \<and> grid s ! i ! j \<le> int (size_s s)"
  using well_formed_row[of s i]
  by (auto simp: cells_in_range_def well_formed_def list_all_length)

lemma unit_each_value_once:
  assumes wf: "well_formed s" and rng: "cells_in_range s"
    and full: "find_empty_cell s = Inr None"
    and ps: "distinct ps" "length ps = size_s s" "set ps \<subseteq> set (positions s)"
    and unit: "\<forall>p\<in>set ps. \<forall>q\<in>set ps. same_unit (box_size s) p q"
    and inv: "\<forall>p\<in>set ps. \<forall>q\<in>set ps. \<not> conflict s p q"
    and v: "v \<in> {1..int (size_s s)}"
  shows "count_list (map (\<lambda>(i, j). grid s ! i ! j) ps) v = 1"
proof (rule each_value_once[OF _ _ _ v])
  let ?f = "\<lambda>(i, j). grid s ! i ! j"
  have nz: "?f p \<noteq> 0" if "p \<in> set ps" for p
  proof -
    obtain i j where ij: "p = (i, j)" by (cases p) auto
    with that ps(3) have "(i, j) \<in> set (positions s)" by blast
    then have "i < size_s s" "j < size_s s" by (simp_all add: positions_iff)
    from find_empty_cell_None[OF wf full this] ij show ?thesis by simp
  qed
  have "inj_on ?f (set ps)"
  proof (rule inj_onI)
    fix p q assume pq: "p \<in> set ps" "q \<in> set ps" "?f p = ?f q"
    show "p = q"
    proof (rule ccontr)
      assume "p \<noteq> q"
      moreover have "same_unit (box_size s) p q" using unit pq(1,2) by blast
      moreover have "grid s ! fst p ! snd p \<noteq> 0"
        using nz[OF pq(1)] by (simp add: case_prod_beta)
      moreover have "grid s ! fst p ! snd p = grid s ! fst q ! snd q"
        using pq(3) by (simp add: case_prod_beta)
      ultimately have "conflict s p q" by (simp add: conflict_def)
      with inv pq(1,2) show False by blast
    qed
  qed
  with ps(1) show "distinct (map ?f ps)" by (simp add: distinct_map)
  show "length (map ?f ps) = size_s s" using ps(2) by simp
  show "set (map ?f ps) \<subseteq> {1..int (size_s s)}"
  proof
    fix x assume "x \<in> set (map ?f ps)"
    then obtain p where p: "p \<in> set ps" "x = ?f p" by auto
    obtain i j where ij: "p = (i, j)" by (cases p) auto
    with p ps(3) have "i < size_s s" "j < size_s s" by (auto simp: positions_iff)
    from cells_in_range_nth[OF wf rng this] nz[OF p(1)] p(2) ij
    show "x \<in> {1..int (size_s s)}" by auto
  qed
qed

lemma solved_from_invariants:
  assumes wf: "well_formed s" and rng: "cells_in_range s"
    and full: "find_empty_cell s = Inr None" and inv: "partial_invariant s"
  shows "solved s"
proof -
  let ?n = "size_s s" and ?b = "box_size s" and ?g = "grid s"
  have inv': "\<forall>p\<in>set ps. \<forall>q\<in>set ps. \<not> conflict s p q"
    if "set ps \<subseteq> set (positions s)" for ps
    using inv that unfolding partial_invariant_def by blast
  have once: "count_list (map (\<lambda>(i, j). grid s ! i ! j) ps) v = 1"
    if "distinct ps" "length ps = size_s s" "set ps \<subseteq> set (positions s)"
      "\<forall>p\<in>set ps. \<forall>q\<in>set ps. same_unit (box_size s) p q" "v \<in> {1..int (size_s s)}"
    for ps v
    using unit_each_value_once[OF wf rng full that(1,2,3,4) inv'[OF that(3)] that(5)] .
  have len: "length ?g = ?n" using wf by (simp add: well_formed_def)
  have empty: "empty_count s = 0" using wf full by (rule full_empty_count)
  have rows: "count_list (row_values s r) v = 1" if "r < ?n" "v \<in> {1..int ?n}" for r v
  proof -
    have "row_values s r = map (\<lambda>(i, j). ?g ! i ! j) (map (Pair r) [0..<?n])"
      using well_formed_row[OF wf that(1)]
      by (simp add: row_values_def comp_def) (metis map_nth)
    moreover have "count_list (map (\<lambda>(i, j). ?g ! i ! j) (map (Pair r) [0..<?n])) v = 1"
      using that by (intro once) (auto simp: distinct_map inj_on_def positions_iff same_unit_def)
    ultimately show ?thesis by simp
  qed
  have cols: "count_list (col_values s c) v = 1" if "c < ?n" "v \<in> {1..int ?n}" for c v
  proof -
    have "col_values s c = map (\<lambda>(i, j). ?g ! i ! j) (map (\<lambda>i. (i, c)) [0..<?n])"
      by (simp add: col_values_def comp_def)
    moreover have "count_list (map (\<lambda>(i, j). ?g ! i ! j) (map (\<lambda>i. (i, c)) [0..<?n])) v = 1"
      using that by (intro once) (auto simp: distinct_map inj_on_def positions_iff same_unit_def)
    ultimately show ?thesis by simp
  qed
  have boxes: "count_list (box_values s r c) v = 1"
    if "r < ?n" "c < ?n" "v \<in> {1..int ?n}" for r c v
    unfolding box_values_def
  proof (rule once[OF _ _ _ _ that(3)])
    have b: "0 < ?b" using well_formed_box_pos[OF wf that(1)] .
    show "distinct (box_positions ?b r c)" by (simp add: box_positions_def distinct_product)
    show "length (box_positions ?b r c) = ?n"
      using wf by (simp add: box_positions_def well_formed_def)
    show "set (box_positions ?b r c) \<subseteq> set (positions s)"
      using box_positions_in_range[OF wf that(1,2)] by (auto simp: positions_iff)
    show "\<forall>p\<in>set (box_positions ?b r c). \<forall>q\<in>set (box_positions ?b r c). same_unit ?b p q"
      using b by (auto simp: box_positions_iff same_unit_def)
  qed
  show ?thesis unfolding solved_def using empty rows cols boxes by simp
qed


lemma find_empty_cell_no_error:
  assumes "well_formed s"
  shows "find_empty_cell s \<noteq> Inl e"
proof -
  have "\<forall>p\<in>set (positions s). (case p of (row, col) \<Rightarrow> cell (grid s) row col)
        = Inr (case p of (i, j) \<Rightarrow> grid s ! i ! j)"
    using assms by (auto simp: positions_iff well_formed_cell)
  from first_match_pure[OF this, of 0] show ?thesis
    by (simp add: find_empty_cell_def positions_def)
qed

section \<open>The depth a call needs\<close>

lemma permutes_input_set: "permutes_input shuffle \<Longrightarrow> set (fst (shuffle rng xs)) = set xs"
  unfolding permutes_input_def by (metis set_mset_mset)

text \<open>
  The loop on a well-formed grid, with a validity test that returns on well-formed
  grids: an exception that escapes the loop escaped a recursive call made after a
  placement.
\<close>

lemma fill_loop_error:
  assumes wf: "well_formed s" and zero: "cell (grid s) row col = Inr 0"
    and rc: "row < size_s s" "col < size_s s"
    and isv: "\<And>t r c v. \<lbrakk>well_formed t; r < size_s t; c < size_s t\<rbrakk> \<Longrightarrow> \<exists>b. isv t r c v = Inr b"
    and rec_False: "\<And>s1 r1 s2 r2. rec (s1, r1) = Inr (False, s2, r2) \<Longrightarrow> s2 = s1"
  shows "fill_loop rec isv s rng row col nums = Inl e \<Longrightarrow>
     \<exists>num\<in>set nums. \<exists>s1 r1. set_cell s row col num = Inr s1 \<and> rec (s1, r1) = Inl e"
proof (induction nums arbitrary: rng)
  case Nil
  then show ?case by simp
next
  case (Cons num nums)
  obtain ok where ok: "isv s row col num = Inr ok" using isv[OF wf rc] by blast
  show ?case
  proof (cases ok)
    case False
    with ok Cons.prems have "fill_loop rec isv s rng row col nums = Inl e" by simp
    from Cons.IH[OF this] show ?thesis by auto
  next
    case True
    obtain s1 where s1: "set_cell s row col num = Inr s1"
      using set_cell_defined[OF zero] by blast
    show ?thesis
    proof (cases "rec (s1, rng)")
      case (Inl e')
      with ok True s1 Cons.prems have "e' = e" by simp
      with Inl s1 show ?thesis by auto
    next
      case r: (Inr t)
      obtain b2 s2 rng2 where t: "t = (b2, s2, rng2)" by (cases t) auto
      show ?thesis
      proof (cases b2)
        case b2: True
        with r t ok True s1 Cons.prems show ?thesis by simp
      next
        case b2: False
        with r t have "rec (s1, rng) = Inr (False, s2, rng2)" by simp
        then have "s2 = s1" by (rule rec_False)
        then have "set_cell s2 row col 0 = Inr s"
          using set_cell_undo[OF zero s1] by simp
        with r t b2 ok True s1 Cons.prems
        have "fill_loop rec isv s rng2 row col nums = Inl e" by simp
        from Cons.IH[OF this] show ?thesis by auto
      qed
    qed
  qed
qed

text \<open>
  On a well-formed grid the only exception of the search is \<open>RecursionError\<close>, and it is
  raised only when the depth allowed is not above the number of zero cells.
\<close>

lemma fill_grid_error:
  assumes isv: "\<And>t r c v. \<lbrakk>well_formed t; r < size_s t; c < size_s t\<rbrakk> \<Longrightarrow> \<exists>b. isv t r c v = Inr b"
    and perm: "permutes_input shuffle"
  shows "well_formed s \<Longrightarrow> fill_grid isv shuffle gsize depth (s, rng) = Inl e \<Longrightarrow>
     e = RecursionError \<and> depth \<le> empty_count s"
proof (induction depth arbitrary: s rng)
  case 0
  then show ?case by simp
next
  case (Suc depth)
  show ?case
  proof (cases "find_empty_cell s")
    case (Inl e')
    with find_empty_cell_no_error[OF Suc.prems(1), of e'] show ?thesis by simp
  next
    case (Inr found)
    show ?thesis
    proof (cases found)
      case None
      with Inr Suc.prems show ?thesis by simp
    next
      case (Some p)
      obtain row col where p: "p = (row, col)" by (cases p) auto
      obtain numbers rng1 where sh: "shuffle rng [1..gsize] = (numbers, rng1)"
        by (cases "shuffle rng [1..gsize]") auto
      have fe: "find_empty_cell s = Inr (Some (row, col))" using Inr Some p by simp
      note zero = find_empty_cell_Some(1)[OF fe]
      have "set numbers = set [1..gsize]"
        using permutes_input_set[OF perm, of rng "[1..gsize]"] sh by simp
      then have nz: "0 \<notin> set numbers" by simp
      have run: "fill_loop (fill_grid isv shuffle gsize depth) isv s rng1 row col numbers = Inl e"
        using Suc.prems(2) fe sh by simp
      have "\<exists>num\<in>set numbers. \<exists>s1 r1. set_cell s row col num = Inr s1
          \<and> fill_grid isv shuffle gsize depth (s1, r1) = Inl e"
      proof (rule fill_loop_error[where rec = "fill_grid isv shuffle gsize depth" and isv = isv,
            OF Suc.prems(1) find_empty_cell_Some[OF fe] _ _ run])
        fix t r c v assume "well_formed t" "r < size_s t" "c < size_s t"
        then show "\<exists>b. isv t r c v = Inr b" by (rule isv)
      next
        fix s1 r1 s2 r2
        assume "fill_grid isv shuffle gsize depth (s1, r1) = Inr (False, s2, r2)"
        then show "s2 = s1" by (rule fill_grid_False)
      qed
      then obtain num s1 r1 where num: "num \<in> set numbers" "set_cell s row col num = Inr s1"
          "fill_grid isv shuffle gsize depth (s1, r1) = Inl e" by blast
      have wf1: "well_formed s1" using set_cell_well_formed[OF num(2) Suc.prems(1)] .
      have "num \<noteq> 0" using num(1) nz by auto
      then have "Suc (empty_count s1) = empty_count s"
        using empty_count_set_cell[OF zero num(2)] by simp
      with Suc.IH[OF wf1 num(3)] show ?thesis by simp
    qed
  qed
qed

lemma fill_grid_returns:
  assumes isv: "\<And>t r c v. \<lbrakk>well_formed t; r < size_s t; c < size_s t\<rbrakk> \<Longrightarrow> \<exists>b. isv t r c v = Inr b"
    and perm: "permutes_input shuffle"
    and wf: "well_formed s" and depth: "empty_count s < depth"
  shows "\<exists>b s' rng'. fill_grid isv shuffle gsize depth (s, rng) = Inr (b, s', rng')"
proof (cases "fill_grid isv shuffle gsize depth (s, rng)")
  case (Inl e)
  from fill_grid_error[OF isv perm wf Inl] depth show ?thesis by simp
next
  case (Inr t)
  then show ?thesis by (cases t) auto
qed

text \<open>
  A call that returns \<open>True\<close> made one nested call for every zero cell: the depth allowed
  was above the number of zero cells.
\<close>

lemma fill_grid_True_depth:
  assumes perm: "permutes_input shuffle"
  shows "well_formed s \<Longrightarrow> fill_grid isv shuffle gsize depth (s, rng) = Inr (True, s', rng') \<Longrightarrow>
     empty_count s < depth"
proof (induction depth arbitrary: s rng)
  case 0
  then show ?case by simp
next
  case (Suc depth)
  show ?case
  proof (cases "find_empty_cell s")
    case (Inl e')
    with Suc.prems show ?thesis by simp
  next
    case (Inr found)
    show ?thesis
    proof (cases found)
      case None
      with Inr have "empty_count s = 0" using full_empty_count[OF Suc.prems(1)] by simp
      then show ?thesis by simp
    next
      case (Some p)
      obtain row col where p: "p = (row, col)" by (cases p) auto
      obtain numbers rng1 where sh: "shuffle rng [1..gsize] = (numbers, rng1)"
        by (cases "shuffle rng [1..gsize]") auto
      have fe: "find_empty_cell s = Inr (Some (row, col))" using Inr Some p by simp
      note zero = find_empty_cell_Some(1)[OF fe]
      have "set numbers = set [1..gsize]"
        using permutes_input_set[OF perm, of rng "[1..gsize]"] sh by simp
      then have nz: "0 \<notin> set numbers" by simp
      have run: "fill_loop (fill_grid isv shuffle gsize depth) isv s rng1 row col numbers
          = Inr (True, s', rng')"
        using Suc.prems(2) fe sh by simp
      have "\<exists>num\<in>set numbers. \<exists>s1 r1. isv s row col num = Inr True
              \<and> set_cell s row col num = Inr s1
              \<and> fill_grid isv shuffle gsize depth (s1, r1) = Inr (True, s', rng')"
        using fill_loop_cases[OF run zero fill_grid_False] by simp
      then obtain num s1 r1 where num: "num \<in> set numbers" "set_cell s row col num = Inr s1"
          "fill_grid isv shuffle gsize depth (s1, r1) = Inr (True, s', rng')" by blast
      have wf1: "well_formed s1" using set_cell_well_formed[OF num(2) Suc.prems(1)] .
      have "num \<noteq> 0" using num(1) nz by auto
      then have "Suc (empty_count s1) = empty_count s"
        using empty_count_set_cell[OF zero num(2)] by simp
      with Suc.IH[OF wf1 num(3)] show ?thesis by simp
    qed
  qed
qed

text \<open>
  A result other than \<open>RecursionError\<close> does not depend on the depth allowed: the same
  call with more depth gives the same result.
\<close>

lemma fill_loop_mono:
  assumes "\<And>x. rec x \<noteq> Inl RecursionError \<Longrightarrow> rec' x = rec x"
  shows "fill_loop rec isv s rng row col nums \<noteq> Inl RecursionError \<Longrightarrow>
         fill_loop rec' isv s rng row col nums = fill_loop rec isv s rng row col nums"
proof (induction nums arbitrary: s rng)
  case Nil
  then show ?case by simp
next
  case (Cons num nums)
  show ?case
  proof (cases "isv s row col num")
    case (Inl e)
    then show ?thesis by simp
  next
    case (Inr ok)
    show ?thesis
    proof (cases ok)
      case False
      with Inr Cons show ?thesis by simp
    next
      case True
      show ?thesis
      proof (cases "set_cell s row col num")
        case (Inl e)
        with Inr True show ?thesis by simp
      next
        case s1: (Inr s1)
        have "rec (s1, rng) \<noteq> Inl RecursionError"
          using Cons.prems Inr True s1 by (auto split: sum.splits)
        then have r': "rec' (s1, rng) = rec (s1, rng)" by (rule assms)
        show ?thesis
        proof (cases "rec (s1, rng)")
          case (Inl e)
          with r' Inr True s1 show ?thesis by simp
        next
          case rr: (Inr t)
          obtain b2 s2 rng2 where t: "t = (b2, s2, rng2)" by (cases t) auto
          show ?thesis
          proof (cases b2)
            case b2: True
            with r' rr t Inr True s1 show ?thesis by simp
          next
            case b2: False
            show ?thesis
            proof (cases "set_cell s2 row col 0")
              case (Inl e)
              with r' rr t b2 Inr True s1 show ?thesis by simp
            next
              case s3: (Inr s3)
              with rr t b2 Inr True s1 Cons.prems
              have "fill_loop rec isv s3 rng2 row col nums \<noteq> Inl RecursionError" by simp
              then have "fill_loop rec' isv s3 rng2 row col nums
                  = fill_loop rec isv s3 rng2 row col nums" by (rule Cons.IH)
              with r' rr t b2 Inr True s1 s3 show ?thesis by simp
            qed
          qed
        qed
      qed
    qed
  qed
qed

lemma fill_grid_Suc:
  "fill_grid isv shuffle gsize depth x \<noteq> Inl RecursionError \<Longrightarrow>
   fill_grid isv shuffle gsize (Suc depth) x = fill_grid isv shuffle gsize depth x"
proof (induction depth arbitrary: x)
  case 0
  then show ?case by (cases x) simp
next
  case (Suc depth)
  obtain s rng where x: "x = (s, rng)" by (cases x) auto
  show ?case
  proof (cases "find_empty_cell s")
    case (Inl e)
    with x show ?thesis by simp
  next
    case (Inr found)
    show ?thesis
    proof (cases found)
      case None
      with Inr x show ?thesis by simp
    next
      case (Some p)
      obtain row col where p: "p = (row, col)" by (cases p) auto
      obtain numbers rng1 where sh: "shuffle rng [1..gsize] = (numbers, rng1)"
        by (cases "shuffle rng [1..gsize]") auto
      have "fill_loop (fill_grid isv shuffle gsize depth) isv s rng1 row col numbers
          \<noteq> Inl RecursionError"
        using Suc.prems x Inr Some p sh by simp
      then have "fill_loop (fill_grid isv shuffle gsize (Suc depth)) isv s rng1 row col numbers
                 = fill_loop (fill_grid isv shuffle gsize depth) isv s rng1 row col numbers"
        by (rule fill_loop_mono[rotated]) (rule Suc.IH)
      with x Inr Some p sh show ?thesis by (simp del: fill_grid.simps(2)) (simp)
    qed
  qed
qed

lemma fill_grid_stable:
  assumes "fill_grid isv shuffle gsize depth x \<noteq> Inl RecursionError" and "depth \<le> depth'"
  shows "fill_grid isv shuffle gsize depth' x = fill_grid isv shuffle gsize depth x"
  using assms(2)
proof (induction depth')
  case 0
  then show ?case by simp
next
  case (Suc depth')
  show ?case
  proof (cases "depth = Suc depth'")
    case True
    then show ?thesis by simp
  next
    case False
    with Suc.prems have le: "depth \<le> depth'" by simp
    then have eq: "fill_grid isv shuffle gsize depth' x = fill_grid isv shuffle gsize depth x"
      by (rule Suc.IH)
    with assms(1) have "fill_grid isv shuffle gsize depth' x \<noteq> Inl RecursionError" by simp
    then have "fill_grid isv shuffle gsize (Suc depth') x = fill_grid isv shuffle gsize depth' x"
      by (rule fill_grid_Suc)
    with eq show ?thesis by simp
  qed
qed

section \<open>The solver is the search with the candidates in ascending order\<close>

lemma keep_order_apply: "keep_order rng xs = (xs, rng)"
  by (simp add: keep_order_def)

lemma permutes_input_keep_order: "permutes_input keep_order"
  by (simp add: permutes_input_def keep_order_def)

lemma try_nums_fill_loop:
  assumes "\<And>s1 r. size_s s1 = n \<Longrightarrow>
      rec s1 = map_sum id (\<lambda>(b, s', u). (b, s')) (rec' (s1, r))"
    and "\<And>s1 r b s2 u. rec' (s1, r) = Inr (b, s2, u) \<Longrightarrow> size_s s2 = size_s s1"
  shows "size_s s = n \<Longrightarrow>
     try_nums rec s row col nums
     = map_sum id (\<lambda>(b, s', u). (b, s'))
         (fill_loop rec' SudokuSolver_is_valid s rng row col nums)"
proof (induction nums arbitrary: s rng)
  case Nil
  then show ?case by simp
next
  case (Cons num nums)
  show ?case
  proof (cases "SudokuSolver_is_valid s row col num")
    case (Inl e)
    then show ?thesis by simp
  next
    case (Inr ok)
    show ?thesis
    proof (cases ok)
      case False
      with Inr Cons show ?thesis by simp
    next
      case True
      show ?thesis
      proof (cases "set_cell s row col num")
        case (Inl e)
        with Inr True show ?thesis by simp
      next
        case s1: (Inr s1)
        then have n1: "size_s s1 = n" using set_cell_fields Cons.prems by metis
        note rec1 = assms(1)[OF n1, of rng]
        show ?thesis
        proof (cases "rec' (s1, rng)")
          case (Inl e)
          with rec1 Inr True s1 show ?thesis by simp
        next
          case rr: (Inr t)
          obtain b2 s2 u2 where t: "t = (b2, s2, u2)" by (cases t) auto
          show ?thesis
          proof (cases b2)
            case b2: True
            with rec1 rr t Inr True s1 show ?thesis by simp
          next
            case b2: False
            show ?thesis
            proof (cases "set_cell s2 row col 0")
              case (Inl e)
              with rec1 rr t b2 Inr True s1 show ?thesis by simp
            next
              case s3: (Inr s3)
              have "size_s s2 = size_s s1" using assms(2) rr t by simp
              moreover have "size_s s3 = size_s s2" using s3 set_cell_fields by metis
              ultimately have "size_s s3 = n" using n1 by simp
              from Cons.IH[OF this, of u2] rec1 rr t b2 Inr True s1 s3
              show ?thesis by simp
            qed
          qed
        qed
      qed
    qed
  qed
qed

lemma solve_fill_grid:
  "solve depth s
   = map_sum id (\<lambda>(b, s', u). (b, s'))
       (fill_grid SudokuSolver_is_valid keep_order (int (size_s s)) depth (s, rng))"
proof (induction depth arbitrary: s rng)
  case 0
  then show ?case by simp
next
  case (Suc depth)
  show ?case
  proof (cases "find_empty_cell s")
    case (Inl e)
    then show ?thesis by simp
  next
    case (Inr found)
    show ?thesis
    proof (cases found)
      case None
      with Inr show ?thesis by simp
    next
      case (Some p)
      obtain row col where p: "p = (row, col)" by (cases p) auto
      have tn: "try_nums (solve depth) s row col [1..int (size_s s)]
          = map_sum id (\<lambda>(b, s', u). (b, s'))
             (fill_loop (fill_grid SudokuSolver_is_valid keep_order (int (size_s s)) depth)
                SudokuSolver_is_valid s rng row col [1..int (size_s s)])"
      proof (rule try_nums_fill_loop[where n = "size_s s"])
        fix s1 :: sudoku and r :: 'a assume eq: "size_s s1 = size_s s"
        show "solve depth s1
          = map_sum id (\<lambda>(b, s', u). (b, s'))
             (fill_grid SudokuSolver_is_valid keep_order (int (size_s s)) depth (s1, r))"
          using Suc.IH[of s1 r] unfolding eq .
      next
        fix s1 :: sudoku and r :: 'a and b and s2 :: sudoku and u :: 'a
        assume "fill_grid SudokuSolver_is_valid keep_order (int (size_s s)) depth (s1, r)
                = Inr (b, s2, u)"
        then show "size_s s2 = size_s s1" using fill_grid_fields by metis
      qed simp
      have lhs: "solve (Suc depth) s = try_nums (solve depth) s row col [1..int (size_s s)]"
        using Inr Some p by simp
      have rhs: "fill_grid SudokuSolver_is_valid keep_order (int (size_s s)) (Suc depth) (s, rng)
          = fill_loop (fill_grid SudokuSolver_is_valid keep_order (int (size_s s)) depth)
                SudokuSolver_is_valid s rng row col [1..int (size_s s)]"
        using Inr Some p by (simp add: keep_order_apply)
      show ?thesis unfolding lhs rhs by (rule tn)
    qed
  qed
qed

lemma solve_Inr:
  "solve depth s = Inr (b, s') \<longleftrightarrow>
   (\<exists>u. fill_grid SudokuSolver_is_valid keep_order (int (size_s s)) depth (s, 0::nat)
        = Inr (b, s', u))"
proof -
  have "map_sum id (\<lambda>(b, s', u). (b, s')) x = Inr (b, s') \<longleftrightarrow> (\<exists>u. x = Inr (b, s', u))"
    for x :: "error + bool \<times> sudoku \<times> nat"
    by (cases x) auto
  then show ?thesis
    unfolding solve_fill_grid[of depth s "0::nat"] by simp
qed

lemma solve_Inl:
  "solve depth s = Inl e \<longleftrightarrow>
   fill_grid SudokuSolver_is_valid keep_order (int (size_s s)) depth (s, 0::nat) = Inl e"
proof -
  have "map_sum id (\<lambda>(b, s', u). (b, s')) x = Inl e \<longleftrightarrow> x = Inl e"
    for x :: "error + bool \<times> sudoku \<times> nat"
    by (cases x) auto
  then show ?thesis
    unfolding solve_fill_grid[of depth s "0::nat"] by simp
qed

text \<open>
  On a grid of the data model the only exception of \<open>solve\<close> is \<open>RecursionError\<close>; a depth
  above the number of zero cells excludes it, and \<open>True\<close> is returned only within such a
  depth. A result other than \<open>RecursionError\<close> is the result at every larger depth.
\<close>

lemma SudokuSolver_is_valid_returns:
  "\<lbrakk>well_formed t; r < size_s t; c < size_s t\<rbrakk> \<Longrightarrow> \<exists>b. SudokuSolver_is_valid t r c v = Inr b"
  using SudokuSolver_is_valid_well_formed by blast

lemma solve_error:
  assumes "well_formed s" and "solve depth s = Inl e"
  shows "e = RecursionError \<and> depth \<le> empty_count s"
proof (rule fill_grid_error[where isv = SudokuSolver_is_valid and shuffle = keep_order
      and gsize = "int (size_s s)" and rng = "0::nat", OF _ permutes_input_keep_order assms(1)])
  fix t r c v assume "well_formed t" "r < size_s t" "c < size_s t"
  then show "\<exists>b. SudokuSolver_is_valid t r c v = Inr b" by (rule SudokuSolver_is_valid_returns)
next
  show "fill_grid SudokuSolver_is_valid keep_order (int (size_s s)) depth (s, 0::nat) = Inl e"
    using assms(2) by (simp only: solve_Inl)
qed

lemma solve_returns:
  assumes "well_formed s" and "empty_count s < depth"
  shows "\<exists>b s'. solve depth s = Inr (b, s')"
proof (cases "solve depth s")
  case (Inl e)
  from solve_error[OF assms(1) Inl] assms(2) show ?thesis by simp
next
  case (Inr t)
  then show ?thesis by (cases t) auto
qed

lemma solve_True_depth:
  assumes "well_formed s" and "solve depth s = Inr (True, s')"
  shows "empty_count s < depth"
proof -
  from assms(2) obtain u
    where "fill_grid SudokuSolver_is_valid keep_order (int (size_s s)) depth (s, 0::nat)
        = Inr (True, s', u)"
    unfolding solve_Inr by blast
  with assms(1) show ?thesis by (rule fill_grid_True_depth[OF permutes_input_keep_order])
qed

lemma solve_stable:
  assumes "solve depth s \<noteq> Inl RecursionError" and "depth \<le> depth'"
  shows "solve depth' s = solve depth s"
proof -
  have "fill_grid SudokuSolver_is_valid keep_order (int (size_s s)) depth (s, 0::nat)
      \<noteq> Inl RecursionError"
    using assms(1) by (simp only: solve_Inl) simp
  then have "fill_grid SudokuSolver_is_valid keep_order (int (size_s s)) depth' (s, 0::nat)
      = fill_grid SudokuSolver_is_valid keep_order (int (size_s s)) depth (s, 0::nat)"
    using assms(2) by (rule fill_grid_stable)
  then show ?thesis by (simp only: solve_fill_grid[of _ s "0::nat"])
qed

section \<open>What a call of the solver leaves in the grid\<close>

lemma fill_grid_frame:
  assumes "fill_grid isv shuffle gsize depth (s, rng) = Inr (b, s', rng')"
    and "v \<noteq> 0"
  shows "cell (grid s) r c = Inr v \<Longrightarrow> cell (grid s') r c = Inr v"
proof (cases b)
  case False
  with assms have "s' = s" using fill_grid_False by metis
  then show "cell (grid s) r c = Inr v \<Longrightarrow> cell (grid s') r c = Inr v" by simp
next
  case True
  with assms have "fill_grid isv shuffle gsize depth (s, rng) = Inr (True, s', rng')"
    by simp
  then show "cell (grid s) r c = Inr v \<Longrightarrow> cell (grid s') r c = Inr v"
  proof (induction rule: fill_grid_True_induct)
    case full
    then show ?case by simp
  next
    case (place s row col num r1 s1)
    have "cell (grid s) row col = Inr 0" using place(1) by (rule find_empty_cell_Some(1))
    with place(6) assms(2) have "\<not> (r = row \<and> c = col)" by auto
    with place(4,6) have "cell (grid s1) r c = Inr v" by (auto simp: set_cell_cell)
    then show ?case by (rule place(5))
  qed
qed

section \<open>Soundness of the search\<close>

text \<open>
  A successful run from a well-formed grid ends in a well-formed grid without zero cell,
  keeps the cells in range, and every conflict of the final grid was one of the initial
  grid. The assumption on \<open>isv\<close> is that it accepts a value only when the value is absent
  from the row, the column and the box; both \<open>is_valid\<close> functions meet it.
\<close>

lemma fill_grid_sound:
  assumes run: "fill_grid isv shuffle gsize depth (s, rng) = Inr (True, s', rng')"
    and isv: "\<And>s r c v. \<lbrakk>well_formed s; r < size_s s; c < size_s s; isv s r c v = Inr True\<rbrakk>
        \<Longrightarrow> v \<notin> set (row_values s r) \<and> v \<notin> set (col_values s c)
            \<and> v \<notin> set (box_values s r c)"
    and perm: "permutes_input shuffle"
    and gsize: "gsize = int n"
  shows "well_formed s \<longrightarrow> size_s s = n \<longrightarrow>
     well_formed s' \<and> size_s s' = n \<and> find_empty_cell s' = Inr None
     \<and> (cells_in_range s \<longrightarrow> cells_in_range s')
     \<and> (\<forall>p\<in>set (positions s). \<forall>q\<in>set (positions s). conflict s' p q \<longrightarrow> conflict s p q)"
  using run
proof (induction rule: fill_grid_True_induct)
  case full
  then show ?case by simp
next
  case (place s row col num r s1)
  show ?case
  proof (intro impI)
    assume wf: "well_formed s" and n: "size_s s = n"
    have rc: "row < size_s s" "col < size_s s"
      using find_empty_cell_Some(2,3)[OF place(1)] by simp_all
    have "num \<in> set [1..gsize]" using place(2) permutes_input_set[OF perm] by simp
    then have num: "0 \<le> num" "num \<le> int (size_s s)" using gsize n by simp_all
    have absent: "num \<notin> set (row_values s row) \<and> num \<notin> set (col_values s col)
            \<and> num \<notin> set (box_values s row col)"
      using isv[OF wf rc place(3)] .
    have wf1: "well_formed s1" using set_cell_well_formed[OF place(4) wf] .
    have n1: "size_s s1 = n" using place(4) n by (simp add: set_cell_fields)
    from place(5) wf1 n1 have IH: "well_formed s'" "size_s s' = n" "find_empty_cell s' = Inr None"
        "cells_in_range s1 \<longrightarrow> cells_in_range s'"
        "\<forall>p\<in>set (positions s1). \<forall>q\<in>set (positions s1). conflict s' p q \<longrightarrow> conflict s1 p q"
      by simp_all
    have pos: "positions s1 = positions s" using n n1 by (simp add: positions_def)
    have "cells_in_range s \<longrightarrow> cells_in_range s'"
      using IH(4) set_cell_cells_in_range[OF place(4) _ num] by blast
    moreover have "\<forall>p\<in>set (positions s). \<forall>q\<in>set (positions s). conflict s' p q \<longrightarrow> conflict s p q"
      using IH(5) placement_no_new_conflict[OF wf rc absent place(4)] unfolding pos by blast
    ultimately show "well_formed s' \<and> size_s s' = n \<and> find_empty_cell s' = Inr None
     \<and> (cells_in_range s \<longrightarrow> cells_in_range s')
     \<and> (\<forall>p\<in>set (positions s). \<forall>q\<in>set (positions s). conflict s' p q \<longrightarrow> conflict s p q)"
      using IH(1,2,3) by simp
  qed
qed

section \<open>A duplicate in a row cannot be completed\<close>

text \<open>
  A full grid in range cannot have a value twice in one row when all its conflicts lie in
  that row: every other row holds the value once, in a column of its own that is neither
  of the two columns of the duplicate, and there are not enough columns for that.
\<close>

lemma full_grid_row_duplicate:
  assumes wf: "well_formed s" and rng: "cells_in_range s"
    and full: "find_empty_cell s = Inr None"
    and r: "r < size_s s" and c: "c1 < size_s s" "c2 < size_s s" "c1 \<noteq> c2"
    and dup: "grid s ! r ! c1 = grid s ! r ! c2"
    and only: "\<And>p q. \<lbrakk>p \<in> set (positions s); q \<in> set (positions s); conflict s p q\<rbrakk>
        \<Longrightarrow> fst p = r \<and> fst q = r"
  shows False
proof -
  let ?n = "size_s s" and ?g = "grid s" and ?b = "box_size s"
  define v where "v = ?g ! r ! c1"
  have nz: "?g ! i ! j \<noteq> 0" if "i < ?n" "j < ?n" for i j
    using find_empty_cell_None[OF wf full that] .
  have v: "v \<in> {1..int ?n}"
    using cells_in_range_nth[OF wf rng r c(1)] nz[OF r c(1)] by (auto simp: v_def)
  have col_conflict: "i = r"
    if "i < ?n" "j < ?n" "?g ! i ! j = v" "?g ! k ! j = v" "k < ?n" "k \<noteq> i" for i j k
  proof -
    have "conflict s (i, j) (k, j)"
      using that nz[OF that(1,2)] by (auto simp: conflict_def same_unit_def)
    with only[of "(i, j)" "(k, j)"] that show ?thesis by (simp add: positions_iff)
  qed
  have ex: "\<exists>j. j < ?n \<and> ?g ! i ! j = v" if "i \<in> {0..<?n} - {r}" for i
  proof -
    from that have i: "i < ?n" "i \<noteq> r" by auto
    let ?ps = "map (Pair i) [0..<?n]"
    have "\<forall>p\<in>set ?ps. \<forall>q\<in>set ?ps. \<not> conflict s p q"
    proof (intro ballI notI)
      fix p q assume "p \<in> set ?ps" "q \<in> set ?ps" "conflict s p q"
      then have "p \<in> set (positions s)" "q \<in> set (positions s)" "fst p = i" "conflict s p q"
        using i(1) by (auto simp: positions_iff)
      with only[of p q] i(2) show False by simp
    qed
    then have "count_list (map (\<lambda>(i, j). ?g ! i ! j) ?ps) v = 1"
      using i(1) v
      by (intro unit_each_value_once[OF wf rng full])
        (auto simp: distinct_map inj_on_def positions_iff same_unit_def)
    then have "v \<in> set (map (\<lambda>(i, j). ?g ! i ! j) ?ps)"
      by (metis count_notin zero_neq_one)
    then show ?thesis by auto
  qed
  then have "\<forall>i\<in>{0..<?n} - {r}. \<exists>j. j < ?n \<and> ?g ! i ! j = v" by blast
  then have "\<exists>f. \<forall>i\<in>{0..<?n} - {r}. f i < ?n \<and> ?g ! i ! f i = v" by (rule bchoice)
  then obtain f where f: "\<forall>i\<in>{0..<?n} - {r}. f i < ?n \<and> ?g ! i ! f i = v" by blast
  have inj: "inj_on f ({0..<?n} - {r})"
  proof (rule inj_onI)
    fix i k assume ik: "i \<in> {0..<?n} - {r}" "k \<in> {0..<?n} - {r}" "f i = f k"
    show "i = k"
    proof (rule ccontr)
      assume ne: "i \<noteq> k"
      from f ik(1) have fi: "i < ?n" "f i < ?n" "?g ! i ! f i = v" by auto
      from f ik(2,3) have fk: "k < ?n" "?g ! k ! f i = v" by auto
      have "i = r" using fi fk ne by (intro col_conflict[of i "f i" k]) auto
      with ik(1) show False by simp
    qed
  qed
  have img: "f ` ({0..<?n} - {r}) \<subseteq> {0..<?n} - {c1, c2}"
  proof
    fix j assume "j \<in> f ` ({0..<?n} - {r})"
    then obtain i where i: "i \<in> {0..<?n} - {r}" "j = f i" by blast
    with f have fi: "f i < ?n" "?g ! i ! f i = v" by auto
    have "f i \<noteq> c1"
    proof
      assume "f i = c1"
      with fi i(1) r have "i = r"
        by (intro col_conflict[of i c1 r]) (auto simp: v_def)
      with i(1) show False by simp
    qed
    moreover have "f i \<noteq> c2"
    proof
      assume "f i = c2"
      with fi i(1) r dup have "i = r"
        by (intro col_conflict[of i c2 r]) (auto simp: v_def)
      with i(1) show False by simp
    qed
    ultimately show "j \<in> {0..<?n} - {c1, c2}" using fi(1) i(2) by simp
  qed
  have "card ({0..<?n} - {r}) \<le> card ({0..<?n} - {c1, c2})"
    using inj img by (intro card_inj_on_le[of f]) auto
  moreover have "card ({0..<?n} - {r}) = ?n - 1" using r by simp
  moreover have "card ({0..<?n} - {c1, c2}) = ?n - 2" using c by (simp add: card_Diff_subset)
  ultimately show False using c by simp
qed

section \<open>Completeness of the search\<close>

lemma completion_value_accepted:
  assumes wf: "well_formed s" and fe: "find_empty_cell s = Inr (Some (row, col))"
    and sol: "completion_of s sol"
  shows "grid sol ! row ! col \<notin> set (row_values s row)
       \<and> grid sol ! row ! col \<notin> set (col_values s col)
       \<and> grid sol ! row ! col \<notin> set (box_values s row col)"
proof -
  let ?n = "size_s s" and ?v = "grid sol ! row ! col"
  have rc: "row < ?n" "col < ?n" using find_empty_cell_Some(2,3)[OF fe] by simp_all
  have zero: "grid s ! row ! col = 0"
    using find_empty_cell_Some(1)[OF fe] by (simp add: cell_Inr)
  from sol have wfs: "well_formed sol" and n: "size_s sol = ?n" and b: "box_size sol = box_size s"
    and full: "find_empty_cell sol = Inr None" and inv: "partial_invariant sol"
    and agree: "\<And>i j. i < ?n \<Longrightarrow> j < ?n \<Longrightarrow> grid s ! i ! j \<noteq> 0
        \<Longrightarrow> grid sol ! i ! j = grid s ! i ! j"
    unfolding completion_of_def by blast+
  have vnz: "?v \<noteq> 0" using find_empty_cell_None[OF wfs full] rc n by simp
  have "grid s ! i ! j \<noteq> ?v"
    if "i < ?n" "j < ?n" "same_unit (box_size s) (row, col) (i, j)" for i j
  proof
    assume eq: "grid s ! i ! j = ?v"
    with vnz agree[OF that(1,2)] have eq': "grid sol ! i ! j = ?v" by simp
    have ne: "(row, col) \<noteq> (i, j)" using eq zero vnz by auto
    have "conflict sol (row, col) (i, j)"
      using ne that(3) vnz eq' b by (simp add: conflict_def)
    moreover have "(row, col) \<in> set (positions sol)" "(i, j) \<in> set (positions sol)"
      using rc that(1,2) n by (simp_all add: positions_iff)
    ultimately show False using inv unfolding partial_invariant_def by blast
  qed
  then show ?thesis unfolding absent_iff[OF wf rc] by blast
qed

lemma completion_after_placement:
  assumes wf: "well_formed s" and fe: "find_empty_cell s = Inr (Some (row, col))"
    and sol: "completion_of s sol"
    and s1: "set_cell s row col (grid sol ! row ! col) = Inr s1"
  shows "completion_of s1 sol"
proof -
  let ?n = "size_s s"
  have rc: "row < ?n" "col < ?n" using find_empty_cell_Some(2,3)[OF fe] by simp_all
  have f: "size_s s1 = ?n" "box_size s1 = box_size s" using s1 by (simp_all add: set_cell_fields)
  have len: "length (grid s) = ?n" using wf by (simp add: well_formed_def)
  have at: "grid s1 ! i ! j = (if i = row \<and> j = col then grid sol ! row ! col else grid s ! i ! j)"
    if "i < ?n" "j < ?n" for i j
    using set_cell_nth[OF s1, of i j] that len well_formed_row[OF wf that(1)] by simp
  from sol have agree: "\<And>i j. i < ?n \<Longrightarrow> j < ?n \<Longrightarrow> grid s ! i ! j \<noteq> 0
        \<Longrightarrow> grid sol ! i ! j = grid s ! i ! j"
    unfolding completion_of_def by blast
  have "grid sol ! i ! j = grid s1 ! i ! j" if "i < ?n" "j < ?n" "grid s1 ! i ! j \<noteq> 0" for i j
    using that at[OF that(1,2)] agree[OF that(1,2)] by (cases "i = row \<and> j = col") auto
  with sol f show ?thesis unfolding completion_of_def by simp
qed

text \<open>
  The loop on a grid that has a completion never runs to its end: the value of the
  completion at the cell is among the candidates, the check accepts it, and the recursive
  call on it does not return \<open>False\<close>.
\<close>

lemma fill_loop_complete:
  assumes wf: "well_formed s" and fe: "find_empty_cell s = Inr (Some (row, col))"
    and sol: "completion_of s sol"
    and isv: "\<And>v. isv s row col v
        = Inr (v \<notin> set (row_values s row) \<and> v \<notin> set (col_values s col)
               \<and> v \<notin> set (box_values s row col))"
    and rec_False: "\<And>s1 r1 s2 r2. rec (s1, r1) = Inr (False, s2, r2) \<Longrightarrow> s2 = s1"
    and rec_complete: "\<And>s1 r1 s2 r2. set_cell s row col (grid sol ! row ! col) = Inr s1
        \<Longrightarrow> rec (s1, r1) \<noteq> Inr (False, s2, r2)"
  shows "grid sol ! row ! col \<in> set nums \<Longrightarrow>
     fill_loop rec isv s rng row col nums \<noteq> Inr (False, s', rng')"
proof (induction nums arbitrary: rng)
  case Nil
  then show ?case by simp
next
  case (Cons num nums)
  let ?v = "grid sol ! row ! col"
  have zero: "cell (grid s) row col = Inr 0" using find_empty_cell_Some(1)[OF fe] .
  have accept: "isv s row col ?v = Inr True"
    using completion_value_accepted[OF wf fe sol] by (simp add: isv)
  obtain ok where ok: "isv s row col num = Inr ok" by (simp add: isv)
  show ?case
  proof (cases ok)
    case False
    with ok accept have "num \<noteq> ?v" by auto
    with Cons.prems have "?v \<in> set nums" by simp
    from Cons.IH[OF this] ok False show ?thesis by simp
  next
    case True
    obtain s1 where s1: "set_cell s row col num = Inr s1"
      using set_cell_defined[OF zero] by blast
    show ?thesis
    proof (cases "rec (s1, rng)")
      case (Inl e)
      with ok True s1 show ?thesis by simp
    next
      case r: (Inr t)
      obtain b s2 r2 where t: "t = (b, s2, r2)" by (cases t) auto
      show ?thesis
      proof (cases b)
        case b: True
        with r t ok True s1 show ?thesis by simp
      next
        case b: False
        with r t have res: "rec (s1, rng) = Inr (False, s2, r2)" by simp
        then have "s2 = s1" by (rule rec_False)
        then have undo: "set_cell s2 row col 0 = Inr s"
          using set_cell_undo[OF zero s1] by simp
        have "num \<noteq> ?v"
        proof
          assume "num = ?v"
          with s1 rec_complete[of s1 rng s2 r2] res show False by auto
        qed
        with Cons.prems have "?v \<in> set nums" by simp
        from Cons.IH[OF this, of r2] res ok True s1 undo show ?thesis by simp
      qed
    qed
  qed
qed

text \<open>
  On a grid that has a completion the search never returns \<open>False\<close>, whatever the order
  of the candidates and whatever the depth allowed.
\<close>

lemma fill_grid_not_False:
  assumes perm: "permutes_input shuffle"
    and isv: "\<And>t r c v. \<lbrakk>well_formed t; r < size_s t; c < size_s t\<rbrakk> \<Longrightarrow>
        isv t r c v = Inr (v \<notin> set (row_values t r) \<and> v \<notin> set (col_values t c)
               \<and> v \<notin> set (box_values t r c))"
  shows "well_formed s \<Longrightarrow> gsize = int (size_s s) \<Longrightarrow> completion_of s sol \<Longrightarrow>
     fill_grid isv shuffle gsize depth (s, rng) \<noteq> Inr (False, s', rng')"
proof (induction depth arbitrary: s rng s' rng')
  case 0
  then show ?case by simp
next
  case (Suc depth)
  note wf = Suc.prems(1) and gsize = Suc.prems(2) and sol = Suc.prems(3)
  show ?case
  proof (cases "find_empty_cell s")
    case (Inl e)
    then show ?thesis by simp
  next
    case (Inr found)
    show ?thesis
    proof (cases found)
      case None
      with Inr show ?thesis by simp
    next
      case (Some p)
      obtain row col where p: "p = (row, col)" by (cases p) auto
      obtain numbers rng1 where sh: "shuffle rng [1..gsize] = (numbers, rng1)"
        by (cases "shuffle rng [1..gsize]") auto
      have fe: "find_empty_cell s = Inr (Some (row, col))" using Inr Some p by simp
      have rc: "row < size_s s" "col < size_s s" using find_empty_cell_Some(2,3)[OF fe] by simp_all
      have nums: "set numbers = {1..int (size_s s)}"
        using permutes_input_set[OF perm, of rng "[1..gsize]"] sh gsize by simp
      from sol have wfs: "well_formed sol" and n: "size_s sol = size_s s"
        and full: "find_empty_cell sol = Inr None" and rng: "cells_in_range sol"
        unfolding completion_of_def by blast+
      have v: "grid sol ! row ! col \<in> set numbers"
        using cells_in_range_nth[OF wfs rng, of row col] find_empty_cell_None[OF wfs full, of row col]
          rc n nums by auto
      have "fill_loop (fill_grid isv shuffle gsize depth) isv s rng1 row col numbers
          \<noteq> Inr (False, s', rng')"
      proof (rule fill_loop_complete[where rec = "fill_grid isv shuffle gsize depth"
            and isv = isv and s = s and sol = sol and row = row and col = col
            and nums = numbers and rng = rng1])
        show "well_formed s" by (rule wf)
        show "find_empty_cell s = Inr (Some (row, col))" by (rule fe)
        show "completion_of s sol" by (rule sol)
        show "grid sol ! row ! col \<in> set numbers" by (rule v)
        show "isv s row col x
            = Inr (x \<notin> set (row_values s row) \<and> x \<notin> set (col_values s col)
                   \<and> x \<notin> set (box_values s row col))" for x
          by (rule isv[OF wf rc])
      next
        fix s1 r1 s2 r2
        assume "fill_grid isv shuffle gsize depth (s1, r1) = Inr (False, s2, r2)"
        then show "s2 = s1" by (rule fill_grid_False)
      next
        fix s1 r1 s2 r2 assume s1: "set_cell s row col (grid sol ! row ! col) = Inr s1"
        have "well_formed s1" using set_cell_well_formed[OF s1 wf] .
        moreover have "gsize = int (size_s s1)" using set_cell_fields[OF s1] gsize by simp
        moreover have "completion_of s1 sol" using completion_after_placement[OF wf fe sol s1] .
        ultimately show "fill_grid isv shuffle gsize depth (s1, r1) \<noteq> Inr (False, s2, r2)"
          by (rule Suc.IH)
      qed
      with fe sh show ?thesis by simp
    qed
  qed
qed

text \<open>
  Hence a grid that has a completion is filled when the depth allowed is above the number
  of its zero cells, and the search raises \<open>RecursionError\<close> when it is not.
\<close>

lemma fill_grid_complete:
  assumes perm: "permutes_input shuffle"
    and isv: "\<And>t r c v. \<lbrakk>well_formed t; r < size_s t; c < size_s t\<rbrakk> \<Longrightarrow>
        isv t r c v = Inr (v \<notin> set (row_values t r) \<and> v \<notin> set (col_values t c)
               \<and> v \<notin> set (box_values t r c))"
    and wf: "well_formed s" and gsize: "gsize = int (size_s s)"
    and sol: "completion_of s sol"
  shows "empty_count s < depth \<Longrightarrow>
       \<exists>s' rng'. fill_grid isv shuffle gsize depth (s, rng) = Inr (True, s', rng')"
    and "depth \<le> empty_count s \<Longrightarrow>
       fill_grid isv shuffle gsize depth (s, rng) = Inl RecursionError"
proof -
  have isv_ret: "\<exists>b. isv t r c v = Inr b"
    if "well_formed t" "r < size_s t" "c < size_s t" for t r c v
    using isv[OF that] by blast
  note nF = fill_grid_not_False[where isv = isv and depth = depth and rng = rng,
      OF perm isv wf gsize sol]
  have err: "e = RecursionError \<and> depth \<le> empty_count s"
    if run: "fill_grid isv shuffle gsize depth (s, rng) = Inl e" for e
  proof (rule fill_grid_error[where isv = isv and shuffle = shuffle and gsize = gsize
        and depth = depth and rng = rng, OF _ perm wf run])
    fix t r c v assume "well_formed t" "r < size_s t" "c < size_s t"
    then show "\<exists>b. isv t r c v = Inr b" by (rule isv_ret)
  qed
  {
    assume d: "empty_count s < depth"
    show "\<exists>s' rng'. fill_grid isv shuffle gsize depth (s, rng) = Inr (True, s', rng')"
    proof (cases "fill_grid isv shuffle gsize depth (s, rng)")
      case (Inl e)
      from err[OF Inl] d show ?thesis by simp
    next
      case (Inr t)
      obtain b s' rng' where t: "t = (b, s', rng')" by (cases t) auto
      with Inr nF[of s' rng'] have "b" by auto
      with Inr t show ?thesis by simp
    qed
  }
  {
    assume d: "depth \<le> empty_count s"
    show "fill_grid isv shuffle gsize depth (s, rng) = Inl RecursionError"
    proof (cases "fill_grid isv shuffle gsize depth (s, rng)")
      case (Inl e)
      from err[OF Inl] Inl show ?thesis by simp
    next
      case (Inr t)
      obtain b s' rng' where t: "t = (b, s', rng')" by (cases t) auto
      with Inr nF[of s' rng'] have "fill_grid isv shuffle gsize depth (s, rng) = Inr (True, s', rng')"
        by auto
      from fill_grid_True_depth[OF perm wf this] d show ?thesis by simp
    qed
  }
qed

section \<open>A solved grid of every size\<close>

lemma mod_shift_inj:
  assumes "a < n" "a' < n" "(a + c) mod n = (a' + c) mod (n::nat)"
  shows "a = a'"
proof -
  have *: "x = y" if "y \<le> x" "x < n" "(x + c) mod n = (y + c) mod n" for x y
  proof -
    have "n dvd (x + c) - (y + c)" using that(1,3) by (simp add: mod_eq_dvd_iff_nat)
    then have "n dvd x - y" by simp
    moreover have "x - y < n" using that(2) by simp
    ultimately have "x - y = 0" using nat_dvd_not_less by blast
    with that(1) show ?thesis by simp
  qed
  show ?thesis
  proof (cases "a' \<le> a")
    case True
    then show ?thesis using * assms by blast
  next
    case False
    then have "a \<le> a'" by simp
    then have "a' = a" using *[of a a'] assms by simp
    then show ?thesis by simp
  qed
qed

lemma digits_unique:
  assumes "y < b" "y' < b" "b * x + y = b * x' + (y'::nat)"
  shows "x = x' \<and> y = y'"
proof -
  have "(b * x + y) div b = x" "(b * x' + y') div b = x'" using assms(1,2) by simp_all
  with assms(3) have "x = x'" by simp
  with assms(3) show ?thesis by simp
qed

lemma div_mod_unique: "i div b = k div b \<Longrightarrow> i mod b = k mod b \<Longrightarrow> i = (k::nat)"
  by (metis div_mult_mod_eq)

lemma pattern_grid_nth:
  assumes "i < b * b" "j < b * b"
  shows "grid (pattern_grid b) ! i ! j = int ((b * (i mod b) + i div b + j) mod (b * b)) + 1"
  using assms by (simp add: pattern_grid_def)

lemma pattern_grid_well_formed: "well_formed (pattern_grid b)"
  by (simp add: pattern_grid_def well_formed_def list_all_iff)

lemma pattern_grid_size: "size_s (pattern_grid b) = b * b" "box_size (pattern_grid b) = b"
  by (simp_all add: pattern_grid_def)

lemma pattern_grid_in_range: "cells_in_range (pattern_grid b)"
proof -
  let ?s = "pattern_grid b" and ?n = "b * b"
  have len: "length (grid ?s) = ?n" by (simp add: pattern_grid_def)
  have row: "length (grid ?s ! i) = ?n" if "i < ?n" for i
    using that by (simp add: pattern_grid_def)
  have "0 \<le> grid ?s ! i ! j \<and> grid ?s ! i ! j \<le> int (size_s ?s)" if "i < ?n" "j < ?n" for i j
  proof -
    have "0 < ?n" using that(1) by linarith
    then have "(b * (i mod b) + i div b + j) mod ?n < ?n" by (rule mod_less_divisor)
    then show ?thesis
      unfolding pattern_grid_nth[OF that] pattern_grid_size by linarith
  qed
  then show ?thesis
    unfolding cells_in_range_def list_all_length using len row by simp
qed

lemma pattern_grid_full: "find_empty_cell (pattern_grid b) = Inr None"
proof -
  let ?s = "pattern_grid b"
  have "\<forall>p\<in>set (positions ?s). (case p of (row, col) \<Rightarrow> cell (grid ?s) row col)
        = Inr (case p of (i, j) \<Rightarrow> grid ?s ! i ! j)"
    using pattern_grid_well_formed by (auto simp: positions_iff well_formed_cell)
  from first_match_pure[OF this, of 0]
  have "find_empty_cell ?s
      = Inr (List.find (\<lambda>p. (case p of (i, j) \<Rightarrow> grid ?s ! i ! j) = 0) (positions ?s))"
    by (simp add: find_empty_cell_def positions_def)
  moreover have "List.find (\<lambda>p. (case p of (i, j) \<Rightarrow> grid ?s ! i ! j) = 0) (positions ?s) = None"
    unfolding find_None_iff
    by (auto simp: positions_iff pattern_grid_size pattern_grid_nth)
  ultimately show ?thesis by simp
qed

lemma pattern_grid_no_conflict:
  assumes i: "i < b * b" and j: "j < b * b" and k: "k < b * b" and l: "l < b * b"
    and unit: "same_unit b (i, j) (k, l)"
    and eq: "grid (pattern_grid b) ! i ! j = grid (pattern_grid b) ! k ! l"
  shows "(i, j) = (k, l)"
proof -
  let ?n = "b * b"
  have b: "0 < b" using i by (cases b) auto
  define h where "h x = b * (x mod b) + x div b" for x
  have h_lt: "h x < ?n" if "x < ?n" for x
  proof -
    have "x div b < b" using that b by (simp add: less_mult_imp_div_less)
    moreover have "x mod b < b" using b by simp
    then have "Suc (x mod b) \<le> b" by simp
    then have "b * Suc (x mod b) \<le> b * b" by (rule mult_le_mono2)
    ultimately show ?thesis by (simp add: h_def)
  qed
  have h_inj: "x = y" if "h x = h y" "x < ?n" "y < ?n" for x y
  proof -
    have "x div b < b" "y div b < b" using that(2,3) b by (simp_all add: less_mult_imp_div_less)
    with that(1) have "x mod b = y mod b \<and> x div b = y div b"
      unfolding h_def by (rule digits_unique[rotated 2])
    then show ?thesis using div_mod_unique by blast
  qed
  from eq have m: "(h i + j) mod ?n = (h k + l) mod ?n"
    using i j k l by (simp add: pattern_grid_nth h_def)
  from unit consider (row) "i = k" | (col) "j = l"
    | (box) "i div b = k div b" "j div b = l div b"
    by (auto simp: same_unit_def)
  then show ?thesis
  proof cases
    case row
    with m have "(j + h i) mod ?n = (l + h i) mod ?n" by (simp add: add.commute)
    with j l have "j = l" by (rule mod_shift_inj)
    with row show ?thesis by simp
  next
    case col
    with m have "(h i + j) mod ?n = (h k + j) mod ?n" by simp
    with h_lt[OF i] h_lt[OF k] have "h i = h k" by (rule mod_shift_inj)
    then have "i = k" using i k by (rule h_inj)
    with col show ?thesis by simp
  next
    case box
    define x where "x u w = b * (u mod b) + w mod b" for u w
    define C where "C = i div b + b * (j div b)"
    have x_lt: "x u w < ?n" for u w
    proof -
      have um: "u mod b < b" and wm: "w mod b < b" using b by simp_all
      from um have "Suc (u mod b) \<le> b" by simp
      then have "b * Suc (u mod b) \<le> b * b" by (rule mult_le_mono2)
      with wm show ?thesis by (simp add: x_def)
    qed
    have split: "h u + w = x u w + (u div b + b * (w div b))" for u w
    proof -
      have "w = b * (w div b) + w mod b" by simp
      then show ?thesis unfolding h_def x_def by linarith
    qed
    have "h i + j = x i j + C" using split[of i j] by (simp add: C_def)
    moreover have "h k + l = x k l + C" using split[of k l] box by (simp add: C_def)
    ultimately have "(x i j + C) mod ?n = (x k l + C) mod ?n" using m by simp
    with x_lt x_lt have "x i j = x k l" by (rule mod_shift_inj)
    then have "i mod b = k mod b \<and> j mod b = l mod b"
      unfolding x_def using b by (intro digits_unique[of "j mod b" b "l mod b"]) simp_all
    with box have "i = k" "j = l" using div_mod_unique by blast+
    then show ?thesis by simp
  qed
qed

lemma pattern_grid_invariant: "partial_invariant (pattern_grid b)"
  unfolding partial_invariant_def
proof (intro ballI notI)
  fix p q
  assume p: "p \<in> set (positions (pattern_grid b))" and q: "q \<in> set (positions (pattern_grid b))"
    and c: "conflict (pattern_grid b) p q"
  obtain i j where pij: "p = (i, j)" by (cases p) auto
  obtain k l where qkl: "q = (k, l)" by (cases q) auto
  from p q pij qkl have "i < b * b" "j < b * b" "k < b * b" "l < b * b"
    by (simp_all add: positions_iff pattern_grid_size)
  moreover from c pij qkl have "same_unit b (i, j) (k, l)"
      "grid (pattern_grid b) ! i ! j = grid (pattern_grid b) ! k ! l" "(i, j) \<noteq> (k, l)"
    by (simp_all add: conflict_def pattern_grid_size)
  ultimately show False using pattern_grid_no_conflict by blast
qed

text \<open>The empty grid of size \<open>b * b\<close> has the pattern grid as a completion.\<close>

lemma pattern_grid_completes:
  assumes "size_s s = b * b" "box_size s = b"
    and "\<And>i j. i < b * b \<Longrightarrow> j < b * b \<Longrightarrow> grid s ! i ! j = 0"
  shows "completion_of s (pattern_grid b)"
  unfolding completion_of_def
  using assms pattern_grid_well_formed pattern_grid_in_range pattern_grid_full
    pattern_grid_invariant
  by (simp add: pattern_grid_size)

section \<open>The generator\<close>

lemma SudokuGrid_init_square:
  "SudokuGrid_init (int (b * b))
   = Inr \<lparr>size_s = b * b, box_size = b, grid = replicate (b * b) (replicate (b * b) 0)\<rparr>"
  using isqrt_square[of b]
  by (simp add: SudokuGrid_init_def power2_eq_square del: of_nat_mult)

lemma count_list_concat_replicate:
  "count_list (concat (replicate m xs)) x = m * count_list xs x"
  by (induction m) simp_all

lemma count_list_replicate: "count_list (replicate n x) x = n"
  by (induction n) simp_all

lemma empty_grid_facts:
  defines "s0 \<equiv> \<lambda>b. \<lparr>size_s = b * b, box_size = b, grid = replicate (b * b) (replicate (b * b) 0)\<rparr>"
  shows "well_formed (s0 b)" and "cells_in_range (s0 b)" and "partial_invariant (s0 b)"
    and "completion_of (s0 b) (pattern_grid b)" and "empty_count (s0 b) = b * b * (b * b)"
proof -
  show "well_formed (s0 b)" by (simp add: s0_def well_formed_def list_all_iff)
  show "cells_in_range (s0 b)" by (simp add: s0_def cells_in_range_def list_all_iff)
  show "partial_invariant (s0 b)"
    by (auto simp: s0_def partial_invariant_def conflict_def positions_def)
  show "completion_of (s0 b) (pattern_grid b)"
    by (rule pattern_grid_completes) (simp_all add: s0_def)
  show "empty_count (s0 b) = b * b * (b * b)"
    by (simp add: s0_def empty_count_def count_list_concat_replicate count_list_replicate)
qed

text \<open>
  The fill of the empty grid of a perfect-square size never returns \<open>False\<close>, whatever the
  shuffles return, provided they return permutations: when it returns, it returns \<open>True\<close>
  and leaves a solved grid. It returns when the depth allowed is above the number of
  cells, and raises \<open>RecursionError\<close> when it is not.
\<close>

lemma fill_grid_empty:
  fixes b :: nat
  defines "s0 \<equiv> \<lparr>size_s = b * b, box_size = b, grid = replicate (b * b) (replicate (b * b) 0)\<rparr>"
  assumes perm: "permutes_input shuffle"
    and isv: "\<And>t r c v. \<lbrakk>well_formed t; r < size_s t; c < size_s t\<rbrakk> \<Longrightarrow>
        isv t r c v = Inr (v \<notin> set (row_values t r) \<and> v \<notin> set (col_values t c)
               \<and> v \<notin> set (box_values t r c))"
  shows "fill_grid isv shuffle (int (b * b)) depth (s0, rng) = Inr (ok, g, rng') \<Longrightarrow>
       ok \<and> well_formed g \<and> size_s g = b * b \<and> box_size g = b \<and> cells_in_range g
        \<and> find_empty_cell g = Inr None \<and> solved g"
    and "b * b * (b * b) < depth \<Longrightarrow>
       \<exists>g rng'. fill_grid isv shuffle (int (b * b)) depth (s0, rng) = Inr (True, g, rng')"
    and "depth \<le> b * b * (b * b) \<Longrightarrow>
       fill_grid isv shuffle (int (b * b)) depth (s0, rng) = Inl RecursionError"
proof -
  note facts = empty_grid_facts[of b, folded s0_def]
  have n: "int (b * b) = int (size_s s0)" by (simp add: s0_def)
  note complete = fill_grid_complete[where isv = isv and depth = depth and rng = rng,
      OF perm isv facts(1) n facts(4)]
  show "\<exists>g rng'. fill_grid isv shuffle (int (b * b)) depth (s0, rng) = Inr (True, g, rng')"
    if "b * b * (b * b) < depth"
    using complete(1) that facts(5) by simp
  show "fill_grid isv shuffle (int (b * b)) depth (s0, rng) = Inl RecursionError"
    if "depth \<le> b * b * (b * b)"
    using complete(2) that facts(5) by simp
  show "ok \<and> well_formed g \<and> size_s g = b * b \<and> box_size g = b \<and> cells_in_range g
        \<and> find_empty_cell g = Inr None \<and> solved g"
    if res: "fill_grid isv shuffle (int (b * b)) depth (s0, rng) = Inr (ok, g, rng')"
  proof -
    have ok: "ok"
      using fill_grid_not_False[where isv = isv and depth = depth and rng = rng
          and s' = g and rng' = rng', OF perm isv facts(1) n facts(4)] res
      by auto
    with res have run: "fill_grid isv shuffle (int (b * b)) depth (s0, rng) = Inr (True, g, rng')"
      by simp
    have isv': "v \<notin> set (row_values t r) \<and> v \<notin> set (col_values t c) \<and> v \<notin> set (box_values t r c)"
      if "well_formed t" "r < size_s t" "c < size_s t" "isv t r c v = Inr True" for t r c v
      using that(4) unfolding isv[OF that(1,2,3)] by simp
    have "well_formed g \<and> size_s g = size_s s0 \<and> find_empty_cell g = Inr None
       \<and> (cells_in_range s0 \<longrightarrow> cells_in_range g)
       \<and> (\<forall>p\<in>set (positions s0). \<forall>q\<in>set (positions s0). conflict g p q \<longrightarrow> conflict s0 p q)"
      using fill_grid_sound[OF run isv' perm n] facts(1) by blast
    then have wf: "well_formed g" and sz: "size_s g = size_s s0"
      and full: "find_empty_cell g = Inr None" and rng: "cells_in_range g"
      and cf: "\<And>p q. p \<in> set (positions s0) \<Longrightarrow> q \<in> set (positions s0) \<Longrightarrow> conflict g p q
            \<Longrightarrow> conflict s0 p q"
      using facts(2) by blast+
    have pos: "positions g = positions s0" using sz by (simp only: positions_def)
    have inv: "partial_invariant g"
      unfolding partial_invariant_def pos
    proof (intro ballI notI)
      fix p q assume pq: "p \<in> set (positions s0)" "q \<in> set (positions s0)" "conflict g p q"
      then have "conflict s0 p q" by (rule cf)
      with facts(3) pq(1,2) show False unfolding partial_invariant_def by blast
    qed
    have bx: "box_size g = b" using fill_grid_fields[OF run] by (simp add: s0_def)
    have "solved g" using wf rng full inv by (rule solved_from_invariants)
    with ok wf sz bx rng full show ?thesis by (simp add: s0_def)
  qed
qed

lemma generate_complete_grid_solved:
  assumes perm: "permutes_input shuffle"
    and isv: "\<And>t r c v. \<lbrakk>well_formed t; r < size_s t; c < size_s t\<rbrakk> \<Longrightarrow>
        isv t r c v = Inr (v \<notin> set (row_values t r) \<and> v \<notin> set (col_values t c)
               \<and> v \<notin> set (box_values t r c))"
    and run: "generate_complete_grid isv shuffle depth (int (b * b)) rng = Inr (g, rng')"
  shows "well_formed g \<and> size_s g = b * b \<and> box_size g = b \<and> cells_in_range g
      \<and> find_empty_cell g = Inr None \<and> solved g"
proof -
  let ?s0 = "\<lparr>size_s = b * b, box_size = b, grid = replicate (b * b) (replicate (b * b) 0)\<rparr>"
  from run obtain ok where "fill_grid isv shuffle (int (b * b)) depth (?s0, rng) = Inr (ok, g, rng')"
    unfolding generate_complete_grid_def SudokuGrid_init_square
    by (auto split: sum.splits)
  from fill_grid_empty(1)[OF perm isv this] show ?thesis by simp
qed

lemma generate_complete_grid_returns:
  assumes perm: "permutes_input shuffle"
    and isv: "\<And>t r c v. \<lbrakk>well_formed t; r < size_s t; c < size_s t\<rbrakk> \<Longrightarrow>
        isv t r c v = Inr (v \<notin> set (row_values t r) \<and> v \<notin> set (col_values t c)
               \<and> v \<notin> set (box_values t r c))"
    and depth: "b * b * (b * b) < depth"
  shows "\<exists>g rng'. generate_complete_grid isv shuffle depth (int (b * b)) rng = Inr (g, rng')"
proof -
  obtain g rng' where "fill_grid isv shuffle (int (b * b)) depth
      (\<lparr>size_s = b * b, box_size = b, grid = replicate (b * b) (replicate (b * b) 0)\<rparr>, rng)
      = Inr (True, g, rng')"
    using fill_grid_empty(2)[OF perm isv depth] by blast
  then have "generate_complete_grid isv shuffle depth (int (b * b)) rng = Inr (g, rng')"
    unfolding generate_complete_grid_def SudokuGrid_init_square by simp
  then show ?thesis by blast
qed

lemma generate_complete_grid_RecursionError:
  assumes perm: "permutes_input shuffle"
    and isv: "\<And>t r c v. \<lbrakk>well_formed t; r < size_s t; c < size_s t\<rbrakk> \<Longrightarrow>
        isv t r c v = Inr (v \<notin> set (row_values t r) \<and> v \<notin> set (col_values t c)
               \<and> v \<notin> set (box_values t r c))"
    and depth: "depth \<le> b * b * (b * b)"
  shows "generate_complete_grid isv shuffle depth (int (b * b)) rng = Inl RecursionError"
  unfolding generate_complete_grid_def SudokuGrid_init_square
  using fill_grid_empty(3)[OF perm isv depth] by simp

section \<open>Removing cells\<close>

lemma empty_count_blank:
  assumes "cell (grid s) r c = Inr x" "x \<noteq> 0" "set_cell s r c 0 = Inr s1"
  shows "empty_count s1 = Suc (empty_count s)"
proof -
  from assms(1) have r: "r < length (grid s)" and c: "c < length (grid s ! r)"
    and x: "grid s ! r ! c = x" by (auto simp: cell_Inr)
  have zero: "cell (grid s1) r c = Inr 0" using assms(1,3) by (simp add: set_cell_cell)
  have g1: "grid s1 = (grid s)[r := (grid s ! r)[c := 0]]" using assms(3) by (simp add: set_cell_Inr)
  have "(grid s ! r)[c := 0, c := x] = grid s ! r" using x by (metis list_update_id list_update_overwrite)
  then have "(grid s1)[r := (grid s1 ! r)[c := x]] = grid s"
    using r g1 by simp
  moreover have "s = s1\<lparr>grid := grid s\<rparr>" using assms(3) by (auto simp: set_cell_Inr)
  ultimately have restore: "set_cell s1 r c x = Inr s"
    using r c g1 by (simp add: set_cell_Inr)
  from empty_count_set_cell[OF zero restore assms(2)] show ?thesis by simp
qed

lemma filled_plus_empty:
  assumes "well_formed s"
  shows "filled_count s + empty_count s = size_s s * size_s s"
proof -
  have split: "length (filter (\<lambda>v. v \<noteq> 0) xs) + count_list xs 0 = length xs" for xs :: "int list"
    by (induction xs) simp_all
  from assms have len: "length (grid s) = size_s s"
    and rows: "\<forall>row\<in>set (grid s). length row = size_s s"
    by (simp_all add: well_formed_def list_all_iff)
  from rows have "map length (grid s) = replicate (length (grid s)) (size_s s)"
    by (simp add: map_replicate_const[symmetric] cong: map_cong)
  then have "length (concat (grid s)) = size_s s * size_s s"
    using len by (simp add: length_concat sum_list_replicate)
  with split[of "concat (grid s)"] show ?thesis by (simp add: filled_count_def empty_count_def)
qed

lemma blanked_from_refl: "blanked_from s s"
  by (simp add: blanked_from_def)

lemma blanked_from_set_cell:
  assumes wf: "well_formed s" and s1: "set_cell s row col 0 = Inr s1" and b: "blanked_from s g"
  shows "blanked_from s1 g"
proof -
  have f: "size_s s1 = size_s s" "box_size s1 = box_size s" using s1 by (simp_all add: set_cell_fields)
  have len: "length (grid s) = size_s s" using wf by (simp add: well_formed_def)
  have "grid s1 ! i ! j = 0 \<or> grid s1 ! i ! j = grid g ! i ! j"
    if "i < size_s g" "j < size_s g" for i j
  proof -
    from b that have ij: "i < size_s s" "j < size_s s"
      and old: "grid s ! i ! j = 0 \<or> grid s ! i ! j = grid g ! i ! j"
      by (simp_all add: blanked_from_def)
    have "grid s1 ! i ! j = (if i = row \<and> j = col then 0 else grid s ! i ! j)"
      using set_cell_nth[OF s1, of i j] ij len well_formed_row[OF wf ij(1)] by simp
    with old show ?thesis by auto
  qed
  with b f show ?thesis by (simp add: blanked_from_def)
qed

text \<open>
  The removal loop over distinct positions inside the grid, none of which holds zero:
  it returns the grid with these cells blanked, one more zero cell for each.
\<close>

lemma remove_cells_count:
  assumes ps: "distinct ps" "\<forall>p\<in>set ps. fst p < n \<and> snd p < n"
  shows "well_formed s \<Longrightarrow> size_s s = n \<Longrightarrow> distinct idx \<Longrightarrow> \<forall>i\<in>set idx. i < length ps \<Longrightarrow>
     \<forall>i\<in>set idx. grid s ! fst (ps ! i) ! snd (ps ! i) \<noteq> 0 \<Longrightarrow> blanked_from s g \<Longrightarrow>
     \<exists>s'. remove_cells ps idx s = Inr s' \<and> well_formed s' \<and> size_s s' = n
          \<and> empty_count s' = empty_count s + length idx \<and> blanked_from s' g"
proof (induction idx arbitrary: s)
  case Nil
  then show ?case by simp
next
  case (Cons i idx)
  note wf = Cons.prems(1) and n = Cons.prems(2) and bl = Cons.prems(6)
  from Cons.prems have i: "i < length ps" "i \<notin> set idx" "distinct idx"
    and rest: "\<forall>k\<in>set idx. k < length ps"
    and nz: "grid s ! fst (ps ! i) ! snd (ps ! i) \<noteq> 0"
    and nzs: "\<forall>k\<in>set idx. grid s ! fst (ps ! k) ! snd (ps ! k) \<noteq> 0" by auto
  obtain row col where p: "ps ! i = (row, col)" by (cases "ps ! i") auto
  have rc: "row < size_s s" "col < size_s s"
    using ps(2) i(1) p n by (metis fst_conv snd_conv nth_mem)+
  have c: "cell (grid s) row col = Inr (grid s ! row ! col)"
    using well_formed_cell[OF wf rc] .
  obtain s1 where s1: "set_cell s row col 0 = Inr s1" using set_cell_defined[OF c] by blast
  have wf1: "well_formed s1" using set_cell_well_formed[OF s1 wf] .
  have n1: "size_s s1 = n" using s1 n by (simp add: set_cell_fields)
  have bl1: "blanked_from s1 g" using blanked_from_set_cell[OF wf s1 bl] .
  have ec: "empty_count s1 = Suc (empty_count s)"
    using empty_count_blank[OF c _ s1] nz p by simp
  have len: "length (grid s) = size_s s" using wf by (simp add: well_formed_def)
  have nzs1: "\<forall>k\<in>set idx. grid s1 ! fst (ps ! k) ! snd (ps ! k) \<noteq> 0"
  proof
    fix k assume k: "k \<in> set idx"
    then have "k \<noteq> i" "k < length ps" using i(2) rest by auto
    then have ne: "ps ! k \<noteq> (row, col)"
      using nth_eq_iff_index_eq[OF ps(1), of k i] i(1) p by auto
    have krc: "fst (ps ! k) < size_s s" "snd (ps ! k) < size_s s"
      using ps(2) \<open>k < length ps\<close> n by (metis nth_mem)+
    have "grid s1 ! fst (ps ! k) ! snd (ps ! k) = grid s ! fst (ps ! k) ! snd (ps ! k)"
      using set_cell_nth[OF s1, of "fst (ps ! k)" "snd (ps ! k)"] krc len
        well_formed_row[OF wf krc(1)] ne
      by (cases "ps ! k") auto
    with nzs k show "grid s1 ! fst (ps ! k) ! snd (ps ! k) \<noteq> 0" by simp
  qed
  obtain s' where s': "remove_cells ps idx s1 = Inr s'" "well_formed s'" "size_s s' = n"
      "empty_count s' = empty_count s1 + length idx" "blanked_from s' g"
    using Cons.IH[OF wf1 n1 i(3) rest nzs1 bl1] by blast
  have "remove_cells ps (i # idx) s = Inr s'" using i(1) p s1 s'(1) by simp
  with s'(2,3,4,5) ec show ?case by simp
qed

text \<open>
  \<open>create_puzzle\<close> once the number \<open>to_remove\<close> of cells is fixed, for a perfect-square
  size and \<open>0 \<le> to_remove \<le> size * size\<close>. It returns whenever the generation does, and
  what it returns is a solved grid with exactly \<open>to_remove\<close> cells blanked.
\<close>

lemma puzzle_from_generated:
  assumes perm: "permutes_input shuffle" and perm_pos: "permutes_input shuffle_pos"
    and isv: "\<And>t r c v. \<lbrakk>well_formed t; r < size_s t; c < size_s t\<rbrakk> \<Longrightarrow>
        isv t r c v = Inr (v \<notin> set (row_values t r) \<and> v \<notin> set (col_values t c)
               \<and> v \<notin> set (box_values t r c))"
    and k: "0 \<le> to_remove" "to_remove \<le> int (b * b * (b * b))"
    and gen: "generate_complete_grid isv shuffle depth (int (b * b)) rng = Inr (g, rng1)"
  shows "\<exists>p rng'. puzzle_from isv shuffle shuffle_pos depth (int (b * b)) to_remove rng
        = Inr (p, rng')
      \<and> well_formed p \<and> size_s p = b * b \<and> box_size p = b \<and> int (empty_count p) = to_remove
      \<and> solved g \<and> well_formed g \<and> blanked_from p g"
proof -
  let ?n = "b * b"
  have g: "well_formed g" "size_s g = ?n" "box_size g = b" "find_empty_cell g = Inr None"
      "solved g"
    using generate_complete_grid_solved[OF perm isv gen] by simp_all
  let ?all = "List.product [0..<?n] [0..<?n]"
  obtain ps rng2 where sh: "shuffle_pos rng1 ?all = (ps, rng2)"
    by (cases "shuffle_pos rng1 ?all") auto
  have m: "mset ps = mset ?all" using perm_pos sh unfolding permutes_input_def by (metis fst_conv)
  have "distinct ?all" by (simp add: distinct_product)
  with m have d: "distinct ps" by (metis mset_eq_imp_distinct_iff)
  have set_ps: "set ps = set ?all" using m by (rule mset_eq_setD)
  have len: "length ps = ?n * ?n" using m by (metis length_product length_upt mset_eq_length minus_nat.diff_0)
  have inr: "\<forall>p\<in>set ps. fst p < ?n \<and> snd p < ?n" unfolding set_ps by auto
  let ?idx = "[0..<nat to_remove]"
  have "nat to_remove \<le> ?n * ?n" using k(2) by (simp only: nat_le_iff)
  then have idx: "\<forall>i\<in>set ?idx. i < length ps" unfolding len by auto
  have nz: "\<forall>i\<in>set ?idx. grid g ! fst (ps ! i) ! snd (ps ! i) \<noteq> 0"
  proof
    fix i assume "i \<in> set ?idx"
    with idx have "ps ! i \<in> set ps" by simp
    with inr have "fst (ps ! i) < size_s g" "snd (ps ! i) < size_s g" using g(2) by auto
    then show "grid g ! fst (ps ! i) ! snd (ps ! i) \<noteq> 0"
      by (rule find_empty_cell_None[OF g(1,4)])
  qed
  obtain p where p: "remove_cells ps ?idx g = Inr p" "well_formed p" "size_s p = ?n"
      "empty_count p = empty_count g + length ?idx" "blanked_from p g"
    using remove_cells_count[OF d inr g(1,2) _ idx nz blanked_from_refl] by auto
  have "empty_count g = 0" using g(5) by (simp add: solved_def)
  with p(4) k(1) have cnt: "int (empty_count p) = to_remove" by simp
  have bx: "box_size p = b" using p(5) g(3) by (simp add: blanked_from_def)
  have "puzzle_from isv shuffle shuffle_pos depth (int ?n) to_remove rng = Inr (p, rng2)"
    unfolding puzzle_from_def using gen sh p(1) by (simp del: of_nat_mult)
  with p(2,3,5) cnt bx g(1,5) show ?thesis by blast
qed

lemma puzzle_from_Inl:
  "generate_complete_grid isv shuffle depth gsize rng = Inl e \<Longrightarrow>
   puzzle_from isv shuffle shuffle_pos depth gsize to_remove rng = Inl e"
  by (simp add: puzzle_from_def)


section \<open>The claims about the solver\<close>

text \<open>
  Claim C2. If \<open>solve\<close> returns \<open>False\<close>, the grid is exactly as it was before the call
  (and so are the other two fields of the solver), whatever depth the call was allowed.
\<close>

theorem solve_False_restores: "solve depth s = Inr (False, s') \<Longrightarrow> s' = s"
  unfolding solve_Inr using fill_grid_False by metis

theorem solve_False_restores_witness:
  "solve 1000 (SudokuSolver_init [[0, 0, 3, 4], [0, 0, 0, 0], [0, 2, 0, 0], [0, 1, 0, 0]])
     = Inr (False, \<lparr>size_s = 4, box_size = 2,
          grid = [[0, 0, 3, 4], [0, 0, 0, 0], [0, 2, 0, 0], [0, 1, 0, 0]]\<rparr>)
   \<and> \<lparr>size_s = 4, box_size = 2, grid = [[0, 0, 3, 4], [0, 0, 0, 0], [0, 2, 0, 0], [0, 1, 0, 0]]\<rparr>
     = SudokuSolver_init [[0, 0, 3, 4], [0, 0, 0, 0], [0, 2, 0, 0], [0, 1, 0, 0]]"
proof -
  have run: "solve 1000 (SudokuSolver_init [[0, 0, 3, 4], [0, 0, 0, 0], [0, 2, 0, 0], [0, 1, 0, 0]])
     = Inr (False, \<lparr>size_s = 4, box_size = 2,
          grid = [[0, 0, 3, 4], [0, 0, 0, 0], [0, 2, 0, 0], [0, 1, 0, 0]]\<rparr>)"
    by code_simp
  show ?thesis by (intro conjI run solve_False_restores[OF run])
qed

text \<open>
  Claim C10. Whatever \<open>solve\<close> returns, and whatever depth the call was allowed, every
  cell that held a non-zero value before the call holds the same value after it.
\<close>

theorem solve_keeps_filled_cells:
  "solve depth s = Inr (b, s') \<Longrightarrow> cell (grid s) r c = Inr v \<Longrightarrow> v \<noteq> 0 \<Longrightarrow>
   cell (grid s') r c = Inr v"
  unfolding solve_Inr using fill_grid_frame by metis

theorem solve_keeps_filled_cells_witness:
  "solve 1000 (SudokuSolver_init [[1, 2, 0, 0], [3, 4, 0, 0], [0, 0, 1, 2], [0, 0, 3, 4]])
     = Inr (True, \<lparr>size_s = 4, box_size = 2,
          grid = [[1, 2, 4, 3], [3, 4, 2, 1], [4, 3, 1, 2], [2, 1, 3, 4]]\<rparr>)
   \<and> cell (grid (SudokuSolver_init [[1, 2, 0, 0], [3, 4, 0, 0], [0, 0, 1, 2], [0, 0, 3, 4]])) 1 0
     = Inr 3
   \<and> (3::int) \<noteq> 0
   \<and> cell (grid \<lparr>size_s = 4, box_size = 2,
          grid = [[1, 2, 4, 3], [3, 4, 2, 1], [4, 3, 1, 2], [2, 1, 3, 4]]\<rparr>) 1 0 = Inr 3"
proof -
  have run: "solve 1000 (SudokuSolver_init [[1, 2, 0, 0], [3, 4, 0, 0], [0, 0, 1, 2], [0, 0, 3, 4]])
     = Inr (True, \<lparr>size_s = 4, box_size = 2,
          grid = [[1, 2, 4, 3], [3, 4, 2, 1], [4, 3, 1, 2], [2, 1, 3, 4]]\<rparr>)"
    by code_simp
  have before: "cell (grid (SudokuSolver_init [[1, 2, 0, 0], [3, 4, 0, 0], [0, 0, 1, 2], [0, 0, 3, 4]])) 1 0
     = Inr 3"
    by code_simp
  have nz: "(3::int) \<noteq> 0" by simp
  show ?thesis by (intro conjI run before nz solve_keeps_filled_cells[OF run before nz])
qed

text \<open>
  Claim C4, as the code has it. On the \<open>4 \<times> 4\<close> grid with rows \<open>1 2 . .\<close>, \<open>3 4 . .\<close>,
  \<open>. . 1 2\<close>, \<open>. . 3 4\<close> the first cell filled is \<open>(0, 2)\<close> and \<open>solve\<close>, allowed the nine
  nested calls that eight placements need, returns \<open>True\<close> with the rows \<open>1 2 4 3\<close>,
  \<open>3 4 2 1\<close>, \<open>4 3 1 2\<close>, \<open>2 1 3 4\<close>. The grid of the claim, \<open>1 2 3 4\<close>, \<open>3 4 1 2\<close>,
  \<open>2 1 4 3\<close>, \<open>4 3 2 1\<close>, is not the result at any depth: it does not even keep the given
  cells of the last two rows.
\<close>

theorem solve_4x4_scenario:
  assumes "8 < depth"
  shows "find_empty_cell (SudokuSolver_init [[1, 2, 0, 0], [3, 4, 0, 0], [0, 0, 1, 2], [0, 0, 3, 4]])
     = Inr (Some (0, 2))
   \<and> solve depth (SudokuSolver_init [[1, 2, 0, 0], [3, 4, 0, 0], [0, 0, 1, 2], [0, 0, 3, 4]])
     = Inr (True, \<lparr>size_s = 4, box_size = 2,
          grid = [[1, 2, 4, 3], [3, 4, 2, 1], [4, 3, 1, 2], [2, 1, 3, 4]]\<rparr>)"
proof -
  let ?s = "SudokuSolver_init [[1, 2, 0, 0], [3, 4, 0, 0], [0, 0, 1, 2], [0, 0, 3, 4]]"
  have first: "find_empty_cell ?s = Inr (Some (0, 2))" by code_simp
  have nine: "solve 9 ?s = Inr (True, \<lparr>size_s = 4, box_size = 2,
          grid = [[1, 2, 4, 3], [3, 4, 2, 1], [4, 3, 1, 2], [2, 1, 3, 4]]\<rparr>)"
    by code_simp
  have "solve depth ?s = solve 9 ?s"
  proof (rule solve_stable)
    show "solve 9 ?s \<noteq> Inl RecursionError" unfolding nine by simp
    show "9 \<le> depth" using assms by simp
  qed
  with first nine show ?thesis by (simp only: simp_thms)
qed

theorem solve_4x4_scenario_witness:
  "(8::nat) < 1000
   \<and> find_empty_cell (SudokuSolver_init [[1, 2, 0, 0], [3, 4, 0, 0], [0, 0, 1, 2], [0, 0, 3, 4]])
     = Inr (Some (0, 2))
   \<and> solve 1000 (SudokuSolver_init [[1, 2, 0, 0], [3, 4, 0, 0], [0, 0, 1, 2], [0, 0, 3, 4]])
     = Inr (True, \<lparr>size_s = 4, box_size = 2,
          grid = [[1, 2, 4, 3], [3, 4, 2, 1], [4, 3, 1, 2], [2, 1, 3, 4]]\<rparr>)"
proof -
  have d: "(8::nat) < 1000" by simp
  show ?thesis by (rule conjI[OF d solve_4x4_scenario[OF d]])
qed

theorem solve_4x4_scenario_counterexample:
  "\<not> (\<exists>depth. solve depth (SudokuSolver_init [[1, 2, 0, 0], [3, 4, 0, 0], [0, 0, 1, 2], [0, 0, 3, 4]])
     = Inr (True, \<lparr>size_s = 4, box_size = 2,
          grid = [[1, 2, 3, 4], [3, 4, 1, 2], [2, 1, 4, 3], [4, 3, 2, 1]]\<rparr>))"
proof
  let ?s = "SudokuSolver_init [[1, 2, 0, 0], [3, 4, 0, 0], [0, 0, 1, 2], [0, 0, 3, 4]]"
  let ?t = "\<lparr>size_s = 4, box_size = 2,
          grid = [[1, 2, 3, 4], [3, 4, 1, 2], [2, 1, 4, 3], [4, 3, 2, 1]]\<rparr>"
  assume "\<exists>depth. solve depth ?s = Inr (True, ?t)"
  then obtain depth where "solve depth ?s = Inr (True, ?t)" by blast
  then obtain u where run: "fill_grid SudokuSolver_is_valid keep_order (int (size_s ?s)) depth
      (?s, 0::nat) = Inr (True, ?t, u)"
    unfolding solve_Inr by blast
  have before: "cell (grid ?s) 2 2 = Inr 1" by code_simp
  have "(1::int) \<noteq> 0" by simp
  from fill_grid_frame[OF run this before] have "cell (grid ?t) 2 2 = Inr 1" .
  moreover have "cell (grid ?t) 2 2 = Inr 4" by code_simp
  ultimately show False by simp
qed

text \<open>
  Claim C1. On a grid of the data model (\<open>size\<close> rows of \<open>size\<close> cells, \<open>size\<close> the square
  of \<open>box_size\<close>, cells in \<open>[0, size]\<close>) whose non-zero cells satisfy the partial
  invariant, if \<open>solve\<close> returns \<open>True\<close> then the grid it leaves has no zero cell and has
  each value of \<open>[1, size]\<close> exactly once in every row, every column and every box.
\<close>

theorem solve_True_solved:
  assumes "well_formed s" "cells_in_range s" "partial_invariant s"
    and "solve depth s = Inr (True, s')"
  shows "solved s'"
proof -
  obtain u where run: "fill_grid SudokuSolver_is_valid keep_order (int (size_s s))
      depth (s, 0::nat) = Inr (True, s', u)"
    using assms(4) unfolding solve_Inr by blast
  have isv: "v \<notin> set (row_values t r) \<and> v \<notin> set (col_values t c) \<and> v \<notin> set (box_values t r c)"
    if "well_formed t" "r < size_s t" "c < size_s t" "SudokuSolver_is_valid t r c v = Inr True"
    for t r c v
    using that(4) unfolding SudokuSolver_is_valid_well_formed[OF that(1,2,3)] by simp
  have snd: "well_formed s' \<and> size_s s' = size_s s \<and> find_empty_cell s' = Inr None
     \<and> (cells_in_range s \<longrightarrow> cells_in_range s')
     \<and> (\<forall>p\<in>set (positions s). \<forall>q\<in>set (positions s). conflict s' p q \<longrightarrow> conflict s p q)"
    using fill_grid_sound[OF run isv permutes_input_keep_order refl] assms(1) by blast
  then have wf': "well_formed s'" and n': "size_s s' = size_s s"
    and full': "find_empty_cell s' = Inr None" and rng': "cells_in_range s'"
    and cf: "\<And>p q. p \<in> set (positions s) \<Longrightarrow> q \<in> set (positions s) \<Longrightarrow> conflict s' p q
          \<Longrightarrow> conflict s p q"
    using assms(2) by blast+
  have pos: "positions s' = positions s" using n' by (simp only: positions_def)
  have "partial_invariant s'"
    unfolding partial_invariant_def pos
  proof (intro ballI notI)
    fix p q assume pq: "p \<in> set (positions s)" "q \<in> set (positions s)" "conflict s' p q"
    then have "conflict s p q" by (rule cf)
    with assms(3) pq(1,2) show False unfolding partial_invariant_def by blast
  qed
  with wf' rng' full' show ?thesis by (intro solved_from_invariants)
qed

theorem solve_True_solved_witness:
  "well_formed (SudokuSolver_init [[1, 2, 0, 0], [3, 4, 0, 0], [0, 0, 1, 2], [0, 0, 3, 4]])
   \<and> cells_in_range (SudokuSolver_init [[1, 2, 0, 0], [3, 4, 0, 0], [0, 0, 1, 2], [0, 0, 3, 4]])
   \<and> partial_invariant (SudokuSolver_init [[1, 2, 0, 0], [3, 4, 0, 0], [0, 0, 1, 2], [0, 0, 3, 4]])
   \<and> solve 1000 (SudokuSolver_init [[1, 2, 0, 0], [3, 4, 0, 0], [0, 0, 1, 2], [0, 0, 3, 4]])
       = Inr (True, \<lparr>size_s = 4, box_size = 2,
            grid = [[1, 2, 4, 3], [3, 4, 2, 1], [4, 3, 1, 2], [2, 1, 3, 4]]\<rparr>)
   \<and> solved \<lparr>size_s = 4, box_size = 2,
            grid = [[1, 2, 4, 3], [3, 4, 2, 1], [4, 3, 1, 2], [2, 1, 3, 4]]\<rparr>"
proof -
  let ?s = "SudokuSolver_init [[1, 2, 0, 0], [3, 4, 0, 0], [0, 0, 1, 2], [0, 0, 3, 4]]"
  have wf: "well_formed ?s" by code_simp
  have rng: "cells_in_range ?s" by code_simp
  have inv: "partial_invariant ?s" by code_simp
  have run: "solve 1000 ?s = Inr (True, \<lparr>size_s = 4, box_size = 2,
            grid = [[1, 2, 4, 3], [3, 4, 2, 1], [4, 3, 1, 2], [2, 1, 3, 4]]\<rparr>)"
    by code_simp
  show ?thesis by (intro conjI wf rng inv run solve_True_solved[OF wf rng inv run])
qed

text \<open>
  Claim C6. On a well-formed grid and for a cell position in range, \<open>is_valid\<close> (both the
  solver's and the grid class's) returns \<open>True\<close> exactly when the value appears neither in
  the row, nor in the column, nor in the box of the cell. Whether the cell itself is empty
  plays no part: the statement holds for a filled cell as for an empty one.
\<close>

theorem is_valid_iff_absent:
  assumes "well_formed s" "row < size_s s" "col < size_s s"
  shows "SudokuSolver_is_valid s row col v
           = Inr (v \<notin> set (row_values s row) \<and> v \<notin> set (col_values s col)
                  \<and> v \<notin> set (box_values s row col))
       \<and> SudokuGrid_is_valid s row col v
           = Inr (v \<notin> set (row_values s row) \<and> v \<notin> set (col_values s col)
                  \<and> v \<notin> set (box_values s row col))"
  using SudokuSolver_is_valid_well_formed[OF assms] SudokuGrid_is_valid_well_formed[OF assms]
  by simp

theorem is_valid_iff_absent_witness:
  "well_formed (SudokuSolver_init [[1, 0, 0, 0], [0, 0, 0, 0], [0, 0, 0, 0], [0, 0, 0, 0]])
   \<and> (0::nat) < size_s (SudokuSolver_init [[1, 0, 0, 0], [0, 0, 0, 0], [0, 0, 0, 0], [0, 0, 0, 0]])
   \<and> cell (grid (SudokuSolver_init [[1, 0, 0, 0], [0, 0, 0, 0], [0, 0, 0, 0], [0, 0, 0, 0]])) 0 0
       = Inr 1
   \<and> SudokuSolver_is_valid
       (SudokuSolver_init [[1, 0, 0, 0], [0, 0, 0, 0], [0, 0, 0, 0], [0, 0, 0, 0]]) 0 0 2 = Inr True
   \<and> SudokuGrid_is_valid
       (SudokuSolver_init [[1, 0, 0, 0], [0, 0, 0, 0], [0, 0, 0, 0], [0, 0, 0, 0]]) 0 0 2 = Inr True
   \<and> SudokuSolver_is_valid
       (SudokuSolver_init [[1, 0, 0, 0], [0, 0, 0, 0], [0, 0, 0, 0], [0, 0, 0, 0]]) 1 1 1 = Inr False"
proof -
  let ?s = "SudokuSolver_init [[1, 0, 0, 0], [0, 0, 0, 0], [0, 0, 0, 0], [0, 0, 0, 0]]"
  have wf: "well_formed ?s" by code_simp
  have r0: "0 < size_s ?s" and r1: "1 < size_s ?s" by code_simp+
  have c: "cell (grid ?s) 0 0 = Inr 1" by code_simp
  have a2: "(2 \<notin> set (row_values ?s 0) \<and> 2 \<notin> set (col_values ?s 0)
             \<and> 2 \<notin> set (box_values ?s 0 0)) = True" by code_simp
  have a1: "(1 \<notin> set (row_values ?s 1) \<and> 1 \<notin> set (col_values ?s 1)
             \<and> 1 \<notin> set (box_values ?s 1 1)) = False" by code_simp
  show ?thesis
    using wf r0 c is_valid_iff_absent[OF wf r0 r0, of 2] is_valid_iff_absent[OF wf r1 r1, of 1]
    unfolding a1 a2 by simp
qed

text \<open>
  Claim C3, as the code has it. \<open>solve\<close> never inspects the cells that are already filled:
  on a full grid it returns \<open>True\<close> at once, whatever the grid holds, so a grid with two
  equal cells in a row is not always rejected; and the search nests one call for every
  placement, so on a grid with many zero cells it can raise \<open>RecursionError\<close> before it
  has failed (the counterexample below). On a grid of the data model whose conflicts all
  lie in the row of the two equal cells no sequence of accepted placements completes the
  grid: \<open>solve\<close> never returns \<open>True\<close>, it either returns \<open>False\<close> with the grid unchanged
  or raises \<open>RecursionError\<close>, and it returns \<open>False\<close> whenever the depth allowed is above
  the number of zero cells.
\<close>

theorem solve_row_conflict_False:
  assumes "well_formed s" "cells_in_range s"
    and "r < size_s s" "c1 < size_s s" "c2 < size_s s" "c1 \<noteq> c2"
    and "grid s ! r ! c1 \<noteq> 0" "grid s ! r ! c1 = grid s ! r ! c2"
    and "conflicts_only_in_row s r"
  shows "(empty_count s < depth \<longrightarrow> solve depth s = Inr (False, s))
     \<and> (solve depth s = Inr (False, s) \<or> solve depth s = Inl RecursionError)"
proof -
  have notTrue: "solve depth s \<noteq> Inr (True, s')" for s'
  proof
    assume res: "solve depth s = Inr (True, s')"
    then obtain u where run: "fill_grid SudokuSolver_is_valid keep_order (int (size_s s))
        depth (s, 0::nat) = Inr (True, s', u)"
      unfolding solve_Inr by blast
    have isv: "v \<notin> set (row_values t i) \<and> v \<notin> set (col_values t j) \<and> v \<notin> set (box_values t i j)"
      if "well_formed t" "i < size_s t" "j < size_s t" "SudokuSolver_is_valid t i j v = Inr True"
      for t i j v
      using that(4) unfolding SudokuSolver_is_valid_well_formed[OF that(1,2,3)] by simp
    have "well_formed s' \<and> size_s s' = size_s s \<and> find_empty_cell s' = Inr None
       \<and> (cells_in_range s \<longrightarrow> cells_in_range s')
       \<and> (\<forall>p\<in>set (positions s). \<forall>q\<in>set (positions s). conflict s' p q \<longrightarrow> conflict s p q)"
      using fill_grid_sound[OF run isv permutes_input_keep_order refl]
        assms(1) by blast
    then have wf': "well_formed s'" and n': "size_s s' = size_s s"
      and full': "find_empty_cell s' = Inr None" and rng': "cells_in_range s'"
      and cf: "\<And>p q. p \<in> set (positions s) \<Longrightarrow> q \<in> set (positions s) \<Longrightarrow> conflict s' p q
            \<Longrightarrow> conflict s p q"
      using assms(2) by blast+
    have pos: "positions s' = positions s" using n' by (simp only: positions_def)
    have keep: "grid s' ! r ! c = grid s ! r ! c" if "c < size_s s" "grid s ! r ! c \<noteq> 0" for c
    proof -
      have "cell (grid s) r c = Inr (grid s ! r ! c)"
        using well_formed_cell[OF assms(1,3) that(1)] .
      from fill_grid_frame[OF run that(2) this]
      show ?thesis by (simp add: cell_Inr)
    qed
    have dup: "grid s' ! r ! c1 = grid s' ! r ! c2"
      using keep[OF assms(4)] keep[OF assms(5)] assms(7,8) by simp
    have only: "fst p = r \<and> fst q = r"
      if "p \<in> set (positions s')" "q \<in> set (positions s')" "conflict s' p q" for p q
    proof -
      from that have pq: "p \<in> set (positions s)" "q \<in> set (positions s)" by (simp_all only: pos)
      then have "conflict s p q" using that(3) by (rule cf)
      with assms(9) pq show ?thesis unfolding conflicts_only_in_row_def by blast
    qed
    show False
      using full_grid_row_duplicate[OF wf' rng' full', of r c1 c2] assms(3,4,5,6) dup only
      unfolding n' by blast
  qed
  have cases: "solve depth s = Inr (False, s) \<or> solve depth s = Inl RecursionError"
  proof (cases "solve depth s")
    case (Inl e)
    with solve_error[OF assms(1) Inl] show ?thesis by simp
  next
    case (Inr t)
    obtain b s' where t: "t = (b, s')" by (cases t) auto
    with Inr notTrue[of s'] have res: "solve depth s = Inr (False, s')" by (cases b) auto
    then obtain u where "fill_grid SudokuSolver_is_valid keep_order (int (size_s s))
        depth (s, 0::nat) = Inr (False, s', u)"
      unfolding solve_Inr by blast
    then have "s' = s" by (rule fill_grid_False)
    with res show ?thesis by simp
  qed
  moreover have "solve depth s \<noteq> Inl RecursionError" if "empty_count s < depth"
    using solve_returns[OF assms(1) that] by auto
  ultimately show ?thesis by blast
qed

theorem solve_row_conflict_False_witness:
  "well_formed (SudokuSolver_init [[1, 1, 0, 0], [0, 0, 0, 0], [0, 0, 0, 0], [0, 0, 0, 0]])
   \<and> cells_in_range (SudokuSolver_init [[1, 1, 0, 0], [0, 0, 0, 0], [0, 0, 0, 0], [0, 0, 0, 0]])
   \<and> grid (SudokuSolver_init [[1, 1, 0, 0], [0, 0, 0, 0], [0, 0, 0, 0], [0, 0, 0, 0]]) ! 0 ! 0
       = grid (SudokuSolver_init [[1, 1, 0, 0], [0, 0, 0, 0], [0, 0, 0, 0], [0, 0, 0, 0]]) ! 0 ! 1
   \<and> conflicts_only_in_row
        (SudokuSolver_init [[1, 1, 0, 0], [0, 0, 0, 0], [0, 0, 0, 0], [0, 0, 0, 0]]) 0
   \<and> empty_count (SudokuSolver_init [[1, 1, 0, 0], [0, 0, 0, 0], [0, 0, 0, 0], [0, 0, 0, 0]]) < 1000
   \<and> solve 1000 (SudokuSolver_init [[1, 1, 0, 0], [0, 0, 0, 0], [0, 0, 0, 0], [0, 0, 0, 0]])
       = Inr (False,
           SudokuSolver_init [[1, 1, 0, 0], [0, 0, 0, 0], [0, 0, 0, 0], [0, 0, 0, 0]])"
proof -
  let ?s = "SudokuSolver_init [[1, 1, 0, 0], [0, 0, 0, 0], [0, 0, 0, 0], [0, 0, 0, 0]]"
  have wf: "well_formed ?s" by code_simp
  have rng: "cells_in_range ?s" by code_simp
  have i: "0 < size_s ?s" "1 < size_s ?s" "(0::nat) \<noteq> 1" by code_simp+
  have nz: "grid ?s ! 0 ! 0 \<noteq> 0" by code_simp
  have dup: "grid ?s ! 0 ! 0 = grid ?s ! 0 ! 1" by code_simp
  have only: "conflicts_only_in_row ?s 0" by code_simp
  have d: "empty_count ?s < 1000" by code_simp
  have "solve 1000 ?s = Inr (False, ?s)"
    using solve_row_conflict_False[OF wf rng i(1) i(1) i(2) i(3) nz dup only, of 1000] d
    by blast
  then show ?thesis by (intro conjI wf rng dup only d)
qed

theorem solve_row_conflict_counterexample:
  "cell (grid (SudokuSolver_init [[1, 1, 3, 4], [3, 4, 1, 2], [2, 1, 4, 3], [4, 3, 2, 1]])) 0 0
     = Inr 1
   \<and> cell (grid (SudokuSolver_init [[1, 1, 3, 4], [3, 4, 1, 2], [2, 1, 4, 3], [4, 3, 2, 1]])) 0 1
     = Inr 1
   \<and> solve 1000 (SudokuSolver_init [[1, 1, 3, 4], [3, 4, 1, 2], [2, 1, 4, 3], [4, 3, 2, 1]])
     = Inr (True, \<lparr>size_s = 4, box_size = 2,
          grid = [[1, 1, 3, 4], [3, 4, 1, 2], [2, 1, 4, 3], [4, 3, 2, 1]]\<rparr>)
   \<and> cell (grid (SudokuSolver_init [[1, 1, 0, 0], [0, 0, 0, 0], [0, 0, 0, 0], [0, 0, 0, 0]])) 0 0
     = Inr 1
   \<and> cell (grid (SudokuSolver_init [[1, 1, 0, 0], [0, 0, 0, 0], [0, 0, 0, 0], [0, 0, 0, 0]])) 0 1
     = Inr 1
   \<and> solve 3 (SudokuSolver_init [[1, 1, 0, 0], [0, 0, 0, 0], [0, 0, 0, 0], [0, 0, 0, 0]])
     = Inl RecursionError"
  by code_simp

section \<open>The claims about the generator\<close>

lemma removal_bounds:
  assumes "0 \<le> kk"
  shows "0 \<le> min (kk * int n) (int n * int n - int n)"
    and "min (kk * int n) (int n * int n - int n) \<le> int (n * n)"
    and "nat (min (kk * int n) (int n * int n - int n)) \<le> n * n - n"
proof -
  have "n \<le> n * n" by (cases n) auto
  then have sq: "int n \<le> int n * int n" by (metis of_nat_le_iff of_nat_mult)
  show 1: "0 \<le> min (kk * int n) (int n * int n - int n)" using assms sq by simp
  show "min (kk * int n) (int n * int n - int n) \<le> int (n * n)" by simp
  have "min (kk * int n) (int n * int n - int n) \<le> int (n * n - n)"
    using \<open>n \<le> n * n\<close> by (simp add: of_nat_diff)
  then show "nat (min (kk * int n) (int n * int n - int n)) \<le> n * n - n" by linarith
qed

lemma SudokuGrid_is_valid_spec:
  "\<lbrakk>well_formed t; r < size_s t; c < size_s t\<rbrakk> \<Longrightarrow>
   SudokuGrid_is_valid t r c v = Inr (v \<notin> set (row_values t r) \<and> v \<notin> set (col_values t c)
               \<and> v \<notin> set (box_values t r c))"
  by (rule SudokuGrid_is_valid_well_formed)

text \<open>
  \<open>create_puzzle\<close> with \<open>min(kk * size, size * size - size)\<close> cells to remove: what it
  returns is a solved grid with exactly that many cells blanked, so at least \<open>size\<close> cells
  stay filled; and it returns whenever the generation does.
\<close>

lemma puzzle_from_cells:
  assumes perm: "permutes_input shuffle" and perm_pos: "permutes_input shuffle_pos"
    and isv: "\<And>t r c v. \<lbrakk>well_formed t; r < size_s t; c < size_s t\<rbrakk> \<Longrightarrow>
        isv t r c v = Inr (v \<notin> set (row_values t r) \<and> v \<notin> set (col_values t c)
               \<and> v \<notin> set (box_values t r c))"
    and kk: "0 \<le> kk"
    and gen: "generate_complete_grid isv shuffle depth (int (b * b)) rng = Inr (g, rng1)"
  shows "\<exists>p rng'. puzzle_from isv shuffle shuffle_pos depth (int (b * b))
           (min (kk * int (b * b)) (int (b * b) * int (b * b) - int (b * b))) rng
        = Inr (p, rng')
      \<and> well_formed p \<and> size_s p = b * b \<and> box_size p = b
      \<and> (\<exists>g. well_formed g \<and> solved g \<and> blanked_from p g)
      \<and> int (empty_count p) = min (kk * int (b * b)) (int (b * b) * int (b * b) - int (b * b))
      \<and> empty_count p \<le> b * b * (b * b) - b * b
      \<and> b * b \<le> filled_count p"
proof -
  let ?k = "min (kk * int (b * b)) (int (b * b) * int (b * b) - int (b * b))"
  note bounds = removal_bounds[OF kk, of "b * b"]
  obtain p rng' where p: "puzzle_from isv shuffle shuffle_pos depth (int (b * b)) ?k rng
        = Inr (p, rng')" "well_formed p" "size_s p = b * b" "box_size p = b"
      "int (empty_count p) = ?k" "solved g" "well_formed g" "blanked_from p g"
    using puzzle_from_generated[OF perm perm_pos isv bounds(1,2) gen] by blast
  from p(5) bounds(3) have le: "empty_count p \<le> b * b * (b * b) - b * b" by linarith
  have nm: "b * b \<le> b * b * (b * b)" by (cases "b * b") auto
  have sum: "filled_count p + empty_count p = b * b * (b * b)"
    using filled_plus_empty[OF p(2)] p(3) by simp
  have "b * b \<le> filled_count p"
  proof -
    define n m e f where "n = b * b" and "m = b * b * (b * b)" and "e = empty_count p"
      and "f = filled_count p"
    have "e \<le> m - n" "f + e = m" "n \<le> m"
      using le sum nm unfolding n_def m_def e_def f_def by blast+
    then have "n \<le> f" by arith
    then show ?thesis unfolding n_def f_def .
  qed
  with p le show ?thesis by blast
qed


lemma create_puzzle_returns:
  assumes perm: "permutes_input shuffle" and perm_pos: "permutes_input shuffle_pos"
    and isv: "\<And>t r c v. \<lbrakk>well_formed t; r < size_s t; c < size_s t\<rbrakk> \<Longrightarrow>
        isv t r c v = Inr (v \<notin> set (row_values t r) \<and> v \<notin> set (col_values t c)
               \<and> v \<notin> set (box_values t r c))"
    and kk: "0 \<le> kk"
    and depth: "b * b * (b * b) < depth"
  shows "\<exists>p rng'. puzzle_from isv shuffle shuffle_pos depth (int (b * b))
           (min (kk * int (b * b)) (int (b * b) * int (b * b) - int (b * b))) rng = Inr (p, rng')"
proof -
  obtain g rng1 where gen: "generate_complete_grid isv shuffle depth (int (b * b)) rng = Inr (g, rng1)"
    using generate_complete_grid_returns[OF perm isv depth] by blast
  from puzzle_from_cells[OF perm perm_pos isv kk gen] show ?thesis by blast
qed

lemma cells_to_remove_min:
  "cells_to_remove (int n) d
     = min ((if d = ''easy'' then 7 else if d = ''medium'' then 8 else 9) * int n)
           (int n * int n - int n)"
  "cells_to_remove_v1 (int n) d
     = min ((if d = ''easy'' then 4 else if d = ''medium'' then 5 else 6) * int n)
           (int n * int n - int n)"
  unfolding cells_to_remove_def cells_to_remove_v1_def by (auto simp: mult.commute)

text \<open>
  Claim C7, as the code has it. The fill of the empty grid of a perfect-square size
  \<open>b * b\<close> never fails, whatever permutations the shuffles return: it never returns
  \<open>False\<close>. But it nests one call of \<open>_fill_grid\<close> for every cell and returns \<open>True\<close> only
  from the innermost one, so it needs \<open>size * size + 1\<close> nested calls. When the depth
  allowed is above \<open>size * size\<close>, \<open>generate_complete_grid\<close> returns a grid of that size
  that satisfies the solved invariant and \<open>create_puzzle\<close> returns, for every difficulty;
  when it is not, both raise \<open>RecursionError\<close>. Python allows 1000 nested calls, so this
  is what happens for every size from 36 on (the counterexample below).
\<close>

theorem generator_succeeds:
  assumes "permutes_input shuffle" "permutes_input shuffle_pos"
  shows "(b * b * (b * b) < depth \<longrightarrow>
        (\<exists>g rng'. generate_complete_grid SudokuGrid_is_valid shuffle depth (int (b * b)) rng
            = Inr (g, rng') \<and> well_formed g \<and> size_s g = b * b \<and> box_size g = b \<and> solved g)
      \<and> (\<exists>g rng'. fill_grid SudokuGrid_is_valid shuffle (int (b * b)) depth
            (\<lparr>size_s = b * b, box_size = b, grid = replicate (b * b) (replicate (b * b) 0)\<rparr>, rng)
            = Inr (True, g, rng'))
      \<and> (\<exists>p rng'. create_puzzle shuffle shuffle_pos depth (int (b * b)) difficulty rng
            = Inr (p, rng')))
     \<and> (depth \<le> b * b * (b * b) \<longrightarrow>
        generate_complete_grid SudokuGrid_is_valid shuffle depth (int (b * b)) rng
            = Inl RecursionError
      \<and> create_puzzle shuffle shuffle_pos depth (int (b * b)) difficulty rng
            = Inl RecursionError)
     \<and> (\<forall>g' rng'. fill_grid SudokuGrid_is_valid shuffle (int (b * b)) depth
            (\<lparr>size_s = b * b, box_size = b, grid = replicate (b * b) (replicate (b * b) 0)\<rparr>, rng)
            \<noteq> Inr (False, g', rng'))"
proof (intro conjI impI allI)
  assume d: "b * b * (b * b) < depth"
  obtain g rng' where g: "generate_complete_grid SudokuGrid_is_valid shuffle depth (int (b * b)) rng
            = Inr (g, rng')"
    using generate_complete_grid_returns[OF assms(1) SudokuGrid_is_valid_spec d] by blast
  from generate_complete_grid_solved[OF assms(1) SudokuGrid_is_valid_spec g] g
  show "\<exists>g rng'. generate_complete_grid SudokuGrid_is_valid shuffle depth (int (b * b)) rng
            = Inr (g, rng') \<and> well_formed g \<and> size_s g = b * b \<and> box_size g = b \<and> solved g"
    by blast
  show "\<exists>g rng'. fill_grid SudokuGrid_is_valid shuffle (int (b * b)) depth
            (\<lparr>size_s = b * b, box_size = b, grid = replicate (b * b) (replicate (b * b) 0)\<rparr>, rng)
            = Inr (True, g, rng')"
    using fill_grid_empty(2)[OF assms(1) SudokuGrid_is_valid_spec d] .
  have k: "(0::int) \<le> (if difficulty = ''easy'' then 7 else if difficulty = ''medium'' then 8 else 9)"
    by simp
  show "\<exists>p rng'. create_puzzle shuffle shuffle_pos depth (int (b * b)) difficulty rng
            = Inr (p, rng')"
    using create_puzzle_returns[OF assms SudokuGrid_is_valid_spec k d]
    unfolding create_puzzle_def cells_to_remove_min .
next
  assume d: "depth \<le> b * b * (b * b)"
  show gen: "generate_complete_grid SudokuGrid_is_valid shuffle depth (int (b * b)) rng
            = Inl RecursionError"
    using generate_complete_grid_RecursionError[OF assms(1) SudokuGrid_is_valid_spec d] .
  show "create_puzzle shuffle shuffle_pos depth (int (b * b)) difficulty rng = Inl RecursionError"
    unfolding create_puzzle_def using gen by (rule puzzle_from_Inl)
next
  fix g' rng'
  show "fill_grid SudokuGrid_is_valid shuffle (int (b * b)) depth
            (\<lparr>size_s = b * b, box_size = b, grid = replicate (b * b) (replicate (b * b) 0)\<rparr>, rng)
            \<noteq> Inr (False, g', rng')"
    using fill_grid_empty(1)[OF assms(1) SudokuGrid_is_valid_spec, of b depth rng False g' rng']
    by blast
qed

theorem generator_succeeds_witness:
  "permutes_input (keep_order :: nat \<Rightarrow> int list \<Rightarrow> int list \<times> nat)
   \<and> permutes_input (keep_order :: nat \<Rightarrow> (nat \<times> nat) list \<Rightarrow> (nat \<times> nat) list \<times> nat)
   \<and> (2 * 2 * (2 * 2) :: nat) < 1000
   \<and> (\<exists>g rng'. generate_complete_grid SudokuGrid_is_valid keep_order 1000 (int (2 * 2)) (0::nat)
            = Inr (g, rng') \<and> well_formed g \<and> size_s g = 2 * 2 \<and> box_size g = 2 \<and> solved g)
   \<and> (\<exists>g rng'. fill_grid SudokuGrid_is_valid keep_order (int (2 * 2)) 1000
            (\<lparr>size_s = 2 * 2, box_size = 2, grid = replicate (2 * 2) (replicate (2 * 2) 0)\<rparr>, 0::nat)
            = Inr (True, g, rng'))
   \<and> (\<exists>p rng'. create_puzzle keep_order keep_order 1000 (int (2 * 2)) ''easy'' (0::nat)
            = Inr (p, rng'))"
proof -
  have p1: "permutes_input (keep_order :: nat \<Rightarrow> int list \<Rightarrow> int list \<times> nat)"
    by (rule permutes_input_keep_order)
  have p2: "permutes_input (keep_order :: nat \<Rightarrow> (nat \<times> nat) list \<Rightarrow> (nat \<times> nat) list \<times> nat)"
    by (rule permutes_input_keep_order)
  have d: "(2 * 2 * (2 * 2) :: nat) < 1000" by simp
  from generator_succeeds[OF p1 p2, of 2 1000 "0::nat" "''easy''"] d
  have "(\<exists>g rng'. generate_complete_grid SudokuGrid_is_valid keep_order 1000 (int (2 * 2)) (0::nat)
            = Inr (g, rng') \<and> well_formed g \<and> size_s g = 2 * 2 \<and> box_size g = 2 \<and> solved g)
   \<and> (\<exists>g rng'. fill_grid SudokuGrid_is_valid keep_order (int (2 * 2)) 1000
            (\<lparr>size_s = 2 * 2, box_size = 2, grid = replicate (2 * 2) (replicate (2 * 2) 0)\<rparr>, 0::nat)
            = Inr (True, g, rng'))
   \<and> (\<exists>p rng'. create_puzzle keep_order keep_order 1000 (int (2 * 2)) ''easy'' (0::nat)
            = Inr (p, rng'))"
    by blast
  with p1 p2 d show ?thesis by blast
qed

theorem generator_succeeds_counterexample:
  "generate_complete_grid SudokuGrid_is_valid
      (keep_order :: nat \<Rightarrow> int list \<Rightarrow> int list \<times> nat) 1000 36 0
   = Inl RecursionError"
proof -
  have "generate_complete_grid SudokuGrid_is_valid
      (keep_order :: nat \<Rightarrow> int list \<Rightarrow> int list \<times> nat) 1000 (int (6 * 6)) 0
   = Inl RecursionError"
  proof (rule generate_complete_grid_RecursionError[OF permutes_input_keep_order])
    fix t r c v assume "well_formed t" "r < size_s t" "c < size_s t"
    then show "SudokuGrid_is_valid t r c v = Inr (v \<notin> set (row_values t r)
        \<and> v \<notin> set (col_values t c) \<and> v \<notin> set (box_values t r c))"
      by (rule SudokuGrid_is_valid_spec)
  next
    show "(1000::nat) \<le> 6 * 6 * (6 * 6)" by simp
  qed
  then show ?thesis by simp
qed




section \<open>Character encoding: round trip\<close>

lemma roundtrip_all:
  "list_all (\<lambda>v. case value_to_char v of Inl e \<Rightarrow> False | Inr c \<Rightarrow> char_to_value c = Inr v) [0..35]"
  by code_simp

lemma value_to_char_roundtrip:
  assumes "0 \<le> v" "v \<le> 35"
  shows "\<exists>c. value_to_char v = Inr c \<and> char_to_value c = Inr v"
proof -
  have "v \<in> set [0..35]" using assms by simp
  with roundtrip_all
  have "case value_to_char v of Inl e \<Rightarrow> False | Inr c \<Rightarrow> char_to_value c = Inr v"
    unfolding list_all_iff by blast
  then show ?thesis by (cases "value_to_char v") auto
qed

lemma upper_idem: "upper (upper c) = upper c"
proof (cases "97 \<le> (of_char c :: nat) \<and> (of_char c :: nat) \<le> 122")
  case True
  then have "(of_char c :: nat) - 32 < 256" by arith
  with True have "(of_char (upper c) :: nat) = of_char c - 32"
    by (simp add: upper_def)
  with True show ?thesis by (simp add: upper_def; arith)
next
  case False
  then have "upper c = c" unfolding upper_def by (rule if_not_P)
  then show ?thesis by simp
qed

lemma char_to_value_upper: "char_to_value (upper c) = char_to_value c"
proof (cases "97 \<le> (of_char c :: nat) \<and> (of_char c :: nat) \<le> 122")
  case True
  then have "(of_char c :: nat) - 32 < 256" by arith
  with True have u: "(of_char (upper c) :: nat) = of_char c - 32"
    by (simp add: upper_def)
  have 1: "c \<noteq> CHR ''.''" using True by auto
  have 2: "upper c \<noteq> CHR ''.''" using u True by auto
  have 3: "\<not> isdigit c" using True by (simp add: isdigit_def)
  have 4: "\<not> isdigit (upper c)" using u True by (simp add: isdigit_def; arith)
  show ?thesis using 1 2 3 4 by (simp add: char_to_value_def upper_idem)
next
  case False
  then have "upper c = c" unfolding upper_def by (rule if_not_P)
  then show ?thesis by simp
qed

lemma encoding_all:
  "list_all (\<lambda>v. case value_to_char v of Inl e \<Rightarrow> False
       | Inr c \<Rightarrow> char_to_value c = Inr v \<and> \<not> isspace c \<and> c \<noteq> CHR '' '') [0..35]"
  by code_simp

lemma lower_all:
  "list_all (\<lambda>v. value_to_char v = Inr (char_of (55 + nat v))
       \<and> char_to_value (char_of (87 + nat v)) = Inr v) [10..35]"
  by code_simp

lemma value_to_char_plain:
  assumes "0 \<le> v" "v \<le> 35"
  shows "\<exists>c. value_to_char v = Inr c \<and> char_to_value c = Inr v \<and> \<not> isspace c \<and> c \<noteq> CHR '' ''"
proof -
  have "v \<in> set [0..35]" using assms by simp
  with encoding_all
  have "case value_to_char v of Inl e \<Rightarrow> False
       | Inr c \<Rightarrow> char_to_value c = Inr v \<and> \<not> isspace c \<and> c \<noteq> CHR '' ''"
    unfolding list_all_iff by blast
  then show ?thesis by (cases "value_to_char v") auto
qed

lemma lower_case_read:
  assumes "10 \<le> v" "v \<le> 35"
  shows "value_to_char v = Inr (char_of (55 + nat v))
       \<and> char_to_value (char_of (87 + nat v)) = Inr v"
proof -
  have "v \<in> set [10..35]" using assms by (simp only: set_upto atLeastAtMost_iff simp_thms)
  with lower_all show ?thesis unfolding list_all_iff by blast
qed

section \<open>Saving and loading: round trip\<close>

lemma map_exc_map: "\<forall>x\<in>set xs. f x = Inr (g x) \<Longrightarrow> map_exc f xs = Inr (map g xs)"
  by (induction xs) simp_all

lemma map_exc_inverse: "\<forall>x\<in>set xs. f (g x) = Inr x \<Longrightarrow> map_exc f (map g xs) = Inr xs"
  by (induction xs) simp_all

lemma strip_line:
  assumes "l \<noteq> []" and "\<forall>c\<in>set l. \<not> isspace c"
  shows "strip (l @ [CHR 0x0A]) = l"
proof -
  have lf: "isspace (CHR 0x0A)" by code_simp
  from assms have "\<not> isspace (hd l)" by simp
  with assms(1) have 1: "dropWhile isspace (l @ [CHR 0x0A]) = l @ [CHR 0x0A]"
    by (cases l) simp_all
  from assms have "\<not> isspace (last l)" by simp
  then have "\<not> isspace (hd (rev l))" using assms(1) by (simp add: hd_rev)
  with assms(1) have 2: "dropWhile isspace (rev l) = rev l"
    by (cases "rev l") simp_all
  show ?thesis unfolding strip_def 1 using lf 2 by simp
qed

text \<open>
  A grid of the data model with at least one row and no cell above 35 is written, and
  what is written is read back as the same grid.
\<close>

lemma save_load_roundtrip:
  assumes wf: "well_formed s" and pos: "0 < size_s s" and rng: "cells_in_range s"
    and le: "list_all (list_all (\<lambda>x. x \<le> 35)) (grid s)"
  shows "\<exists>ls. save_grid_to_file s = Inr ls \<and> length ls = size_s s
      \<and> load_grid_from_file ls = Inr s"
proof -
  let ?n = "size_s s"
  define ch where "ch v = (case value_to_char v of Inr c \<Rightarrow> c | Inl e \<Rightarrow> CHR ''.'')" for v
  from wf have len: "length (grid s) = ?n"
    and rows: "\<And>row. row \<in> set (grid s) \<Longrightarrow> length row = ?n"
    and box: "box_size s * box_size s = ?n"
    by (simp_all add: well_formed_def list_all_iff)
  have cellv: "0 \<le> x \<and> x \<le> int ?n \<and> x \<le> 35" if "row \<in> set (grid s)" "x \<in> set row" for row x
    using rng le that by (auto simp: cells_in_range_def list_all_iff)
  have enc: "value_to_char x = Inr (ch x) \<and> char_to_value (ch x) = Inr x
      \<and> \<not> isspace (ch x) \<and> ch x \<noteq> CHR '' ''"
    if "row \<in> set (grid s)" "x \<in> set row" for row x
    using value_to_char_plain[of x] cellv[OF that] by (auto simp: ch_def)
  have line: "map_exc value_to_char row = Inr (map ch row)" if "row \<in> set (grid s)" for row
    using enc[OF that] by (intro map_exc_map) simp
  have save: "save_grid_to_file s = Inr (map (\<lambda>row. map ch row @ [CHR 0x0A]) (grid s))"
    unfolding save_grid_to_file_def by (rule map_exc_map) (simp add: line)
  have ne: "map ch row \<noteq> []" if "row \<in> set (grid s)" for row
    using rows[OF that] pos by auto
  have stripped: "strip (map ch row @ [CHR 0x0A]) = map ch row" if "row \<in> set (grid s)" for row
  proof (rule strip_line)
    show "map ch row \<noteq> []" using that by (rule ne)
    show "\<forall>c\<in>set (map ch row). \<not> isspace c" using enc[OF that] by auto
  qed
  have lines: "filter (\<lambda>line. line \<noteq> [])
        (map strip (map (\<lambda>row. map ch row @ [CHR 0x0A]) (grid s)))
      = map (map ch) (grid s)"
  proof -
    have "map strip (map (\<lambda>row. map ch row @ [CHR 0x0A]) (grid s)) = map (map ch) (grid s)"
      using stripped by simp
    moreover have "filter (\<lambda>line. line \<noteq> []) (map (map ch) (grid s)) = map (map ch) (grid s)"
      using ne by (simp add: filter_id_conv)
    ultimately show ?thesis by (simp only:)
  qed
  have nonempty: "map (map ch) (grid s) \<noteq> []" using len pos by auto
  have root: "isqrt ?n = box_size s"
    using isqrt_square[of "box_size s"] box by simp
  then have sq: "(isqrt ?n)\<^sup>2 = ?n" using box by (simp add: power2_eq_square)
  have init: "SudokuGrid_init (int ?n)
      = Inr \<lparr>size_s = ?n, box_size = box_size s, grid = replicate ?n (replicate ?n 0)\<rparr>"
    using SudokuGrid_init_square[of "box_size s"] box by simp
  have read: "load_line ?n (map ch row) = Inr row" if "row \<in> set (grid s)" for row
  proof -
    have "filter (\<lambda>c. c \<noteq> CHR '' '') (map ch row) = map ch row"
      using enc[OF that] by (simp add: filter_id_conv)
    moreover have "length (map ch row) = ?n" using rows[OF that] by simp
    moreover have "map_exc (\<lambda>char. case char_to_value char of Inl e \<Rightarrow> Inl e
          | Inr num \<Rightarrow> if num < 0 \<or> num > int ?n then Inl ValueError else Inr num) (map ch row)
        = Inr row"
    proof (rule map_exc_inverse, rule ballI)
      fix x assume x: "x \<in> set row"
      from enc[OF that x] cellv[OF that x]
      show "(case char_to_value (ch x) of Inl e \<Rightarrow> Inl e
          | Inr num \<Rightarrow> if num < 0 \<or> num > int ?n then Inl ValueError else Inr num) = Inr x"
        by simp
    qed
    ultimately show ?thesis by (simp add: load_line_def)
  qed
  have all: "map_exc (load_line ?n) (map (map ch) (grid s)) = Inr (grid s)"
    using read by (intro map_exc_inverse) simp
  have "load_grid_from_file (map (\<lambda>row. map ch row @ [CHR 0x0A]) (grid s)) = Inr s"
    unfolding load_grid_from_file_def lines
    using nonempty len sq init all by (simp add: Let_def)
  with save len show ?thesis by simp
qed

text \<open>
  Claim C9, as the code has it. For every value \<open>v\<close> in \<open>[0, 35]\<close>,
  \<open>char_to_value(value_to_char(v))\<close> is \<open>v\<close>; \<open>.\<close> encodes 0, the digits encode 1 to 9,
  the capital letters 10 to 35, and reading ignores case: the lower-case letter is read
  as the same value. Writing a grid with \<open>save_grid_to_file\<close> and reading it back with
  \<open>load_grid_from_file\<close> gives the same grid when the grid is one of the data model, with
  at least one row and no cell above 35. It is not so for every grid whose cells lie in
  \<open>[0, 35]\<close>: the reader rejects a value above the size of the grid and a number of rows
  that is not a perfect square (the counterexample below).
\<close>

theorem encoding_roundtrip:
  "(0 \<le> v \<and> v \<le> 35 \<longrightarrow> (\<exists>c. value_to_char v = Inr c \<and> char_to_value c = Inr v))
   \<and> (10 \<le> v \<and> v \<le> 35 \<longrightarrow>
        value_to_char v = Inr (char_of (of_char (CHR ''A'') + nat v - 10))
        \<and> char_to_value (char_of (of_char (CHR ''a'') + nat v - 10)) = Inr v)
   \<and> char_to_value (upper c) = char_to_value c
   \<and> value_to_char 0 = Inr (CHR ''.'') \<and> value_to_char 1 = Inr (CHR ''1'')
   \<and> value_to_char 9 = Inr (CHR ''9'') \<and> value_to_char 10 = Inr (CHR ''A'')
   \<and> value_to_char 35 = Inr (CHR ''Z'')
   \<and> char_to_value (CHR ''a'') = Inr 10 \<and> char_to_value (CHR ''z'') = Inr 35
   \<and> (well_formed s \<and> 0 < size_s s \<and> cells_in_range s
        \<and> list_all (list_all (\<lambda>x. x \<le> 35)) (grid s) \<longrightarrow>
        (\<exists>ls. save_grid_to_file s = Inr ls \<and> length ls = size_s s
            \<and> load_grid_from_file ls = Inr s))"
proof -
  have lits: "value_to_char 0 = Inr (CHR ''.'')" "value_to_char 1 = Inr (CHR ''1'')"
      "value_to_char 9 = Inr (CHR ''9'')" "value_to_char 10 = Inr (CHR ''A'')"
      "value_to_char 35 = Inr (CHR ''Z'')"
      "char_to_value (CHR ''a'') = Inr 10" "char_to_value (CHR ''z'') = Inr 35"
    by code_simp+
  have lower: "value_to_char v = Inr (char_of (of_char (CHR ''A'') + nat v - 10))
        \<and> char_to_value (char_of (of_char (CHR ''a'') + nat v - 10)) = Inr v"
    if "10 \<le> v \<and> v \<le> 35"
  proof -
    have "(of_char (CHR ''A'') :: nat) + nat v - 10 = 55 + nat v"
      "(of_char (CHR ''a'') :: nat) + nat v - 10 = 87 + nat v"
      using that by simp_all
    with lower_case_read[of v] that show ?thesis by simp
  qed
  show ?thesis
    using lits lower value_to_char_roundtrip[of v] char_to_value_upper[of c]
      save_load_roundtrip[of s]
    by blast
qed

theorem encoding_roundtrip_witness:
  "(10::int) \<le> 20 \<and> (20::int) \<le> 35
   \<and> value_to_char 20 = Inr (CHR ''K'') \<and> char_to_value (CHR ''K'') = Inr 20
   \<and> char_to_value (CHR ''k'') = Inr 20
   \<and> well_formed \<lparr>size_s = 4, box_size = 2,
         grid = [[1, 2, 0, 0], [3, 4, 0, 0], [0, 0, 1, 2], [0, 0, 3, 4]]\<rparr>
   \<and> cells_in_range \<lparr>size_s = 4, box_size = 2,
         grid = [[1, 2, 0, 0], [3, 4, 0, 0], [0, 0, 1, 2], [0, 0, 3, 4]]\<rparr>
   \<and> save_grid_to_file \<lparr>size_s = 4, box_size = 2,
         grid = [[1, 2, 0, 0], [3, 4, 0, 0], [0, 0, 1, 2], [0, 0, 3, 4]]\<rparr>
       = Inr [''12..'' @ [CHR 0x0A], ''34..'' @ [CHR 0x0A], ''..12'' @ [CHR 0x0A],
              ''..34'' @ [CHR 0x0A]]
   \<and> load_grid_from_file [''12..'' @ [CHR 0x0A], ''34..'' @ [CHR 0x0A], ''..12'' @ [CHR 0x0A],
              ''..34'' @ [CHR 0x0A]]
       = Inr \<lparr>size_s = 4, box_size = 2,
         grid = [[1, 2, 0, 0], [3, 4, 0, 0], [0, 0, 1, 2], [0, 0, 3, 4]]\<rparr>"
proof -
  let ?s = "\<lparr>size_s = 4, box_size = 2,
         grid = [[1, 2, 0, 0], [3, 4, 0, 0], [0, 0, 1, 2], [0, 0, 3, 4]]\<rparr>"
  let ?ls = "[''12..'' @ [CHR 0x0A], ''34..'' @ [CHR 0x0A], ''..12'' @ [CHR 0x0A],
              ''..34'' @ [CHR 0x0A]]"
  have v: "(10::int) \<le> 20" "(20::int) \<le> 35" by simp_all
  have wf: "well_formed ?s" by code_simp
  have pos: "0 < size_s ?s" by simp
  have rng: "cells_in_range ?s" by code_simp
  have le: "list_all (list_all (\<lambda>x. x \<le> 35)) (grid ?s)" by simp
  have save: "save_grid_to_file ?s = Inr ?ls" by code_simp
  have k: "char_of (of_char (CHR ''A'') + nat 20 - 10 :: nat) = CHR ''K''"
    "char_of (of_char (CHR ''a'') + nat 20 - 10 :: nat) = CHR ''k''"
    by code_simp+
  note inst = encoding_roundtrip[of 20 "CHR ''k''" ?s]
  from inst v have "value_to_char 20 = Inr (char_of (of_char (CHR ''A'') + nat 20 - 10))
        \<and> char_to_value (char_of (of_char (CHR ''a'') + nat 20 - 10)) = Inr 20"
    by blast
  then have letters: "value_to_char 20 = Inr (CHR ''K'')" "char_to_value (CHR ''k'') = Inr 20"
    unfolding k by blast+
  from inst v letters(1) have kback: "char_to_value (CHR ''K'') = Inr 20" by auto
  from inst wf pos rng le
  have "\<exists>ls. save_grid_to_file ?s = Inr ls \<and> length ls = size_s ?s
      \<and> load_grid_from_file ls = Inr ?s"
    by blast
  with save have load: "load_grid_from_file ?ls = Inr ?s" by auto
  show ?thesis by (intro conjI v letters kback wf rng save load)
qed

theorem encoding_roundtrip_counterexample:
  "list_all (list_all (\<lambda>x. (0::int) \<le> x \<and> x \<le> 35))
       [[7, 0, 0, 0], [0, 0, 0, 0], [0, 0, 0, 0], [0, 0, 0, 0]]
   \<and> save_grid_to_file \<lparr>size_s = 4, box_size = 2,
         grid = [[7, 0, 0, 0], [0, 0, 0, 0], [0, 0, 0, 0], [0, 0, 0, 0]]\<rparr>
       = Inr [''7...'' @ [CHR 0x0A], ''....'' @ [CHR 0x0A], ''....'' @ [CHR 0x0A],
              ''....'' @ [CHR 0x0A]]
   \<and> load_grid_from_file [''7...'' @ [CHR 0x0A], ''....'' @ [CHR 0x0A], ''....'' @ [CHR 0x0A],
              ''....'' @ [CHR 0x0A]]
       = Inl ValueError
   \<and> list_all (list_all (\<lambda>x. (0::int) \<le> x \<and> x \<le> 35)) [[0, 1], [10, 35]]
   \<and> save_grid_to_file \<lparr>size_s = 2, box_size = 1, grid = [[0, 1], [10, 35]]\<rparr>
       = Inr [''.1'' @ [CHR 0x0A], ''AZ'' @ [CHR 0x0A]]
   \<and> load_grid_from_file [''.1'' @ [CHR 0x0A], ''AZ'' @ [CHR 0x0A]] = Inl ValueError"
  by code_simp

end
